theory Spec2Isabelle
  imports Main
begin

section \<open>Bytes, runes and the library functions the parser calls\<close>

text \<open>
  A Go \<^verbatim>\<open>[]byte\<close> and a Go \<^verbatim>\<open>string\<close> are both sequences of bytes: here
  \<open>char list\<close> (an Isabelle \<open>char\<close> is one byte). A \<^verbatim>\<open>rune\<close> is a code point, here a
  \<open>nat\<close>. The functions of this section are those of Go's packages \<^verbatim>\<open>unicode/utf8\<close>,
  \<^verbatim>\<open>unicode\<close>, \<^verbatim>\<open>bytes\<close> and \<^verbatim>\<open>strings\<close> that the parser uses, written after their
  library sources.
\<close>

type_synonym bytes = "char list"
type_synonym rune = nat

definition rune_of :: "char \<Rightarrow> rune" where
  \<comment> \<open>the conversion \<^verbatim>\<open>rune(b)\<close> of a byte\<close>
  "rune_of b = of_char b"

definition RuneError :: rune where "RuneError = 0xFFFD"
definition RuneSelf :: rune where "RuneSelf = 0x80"
definition UTFMax :: nat where "UTFMax = 4"

definition runeSize :: "rune \<Rightarrow> nat" where
  \<comment> \<open>the size field of utf8's table \<^verbatim>\<open>first\<close>; 0 stands for the invalid entry \<^verbatim>\<open>xx\<close>\<close>
  "runeSize p0 =
     (if p0 < 0x80 then 1 else if p0 < 0xC2 then 0 else if p0 < 0xE0 then 2
      else if p0 < 0xF0 then 3 else if p0 < 0xF5 then 4 else 0)"

definition acceptLo :: "rune \<Rightarrow> rune" where
  "acceptLo p0 = (if p0 = 0xE0 then 0xA0 else if p0 = 0xF0 then 0x90 else 0x80)"

definition acceptHi :: "rune \<Rightarrow> rune" where
  "acceptHi p0 = (if p0 = 0xED then 0x9F else if p0 = 0xF4 then 0x8F else 0xBF)"

fun DecodeRune :: "bytes \<Rightarrow> rune \<times> nat" where
  "DecodeRune [] = (RuneError, 0)"
| "DecodeRune (c0 # p) =
     (let p0 = rune_of c0; sz = runeSize p0 in
      if p0 < RuneSelf then (p0, 1)
      else if sz = 0 then (RuneError, 1)
      else if Suc (length p) < sz then (RuneError, 1)
      else
        let b1 = rune_of (p ! 0) in
        if b1 < acceptLo p0 \<or> acceptHi p0 < b1 then (RuneError, 1)
        else if sz \<le> 2 then ((p0 mod 32) * 64 + b1 mod 64, 2)
        else
          let b2 = rune_of (p ! 1) in
          if b2 < 0x80 \<or> 0xBF < b2 then (RuneError, 1)
          else if sz \<le> 3 then ((p0 mod 16) * 4096 + (b1 mod 64) * 64 + b2 mod 64, 3)
          else
            let b3 = rune_of (p ! 2) in
            if b3 < 0x80 \<or> 0xBF < b3 then (RuneError, 1)
            else ((p0 mod 8) * 262144 + (b1 mod 64) * 4096 + (b2 mod 64) * 64 + b3 mod 64, 4))"

definition RuneStart :: "char \<Rightarrow> bool" where
  \<comment> \<open>\<^verbatim>\<open>b&0xC0 != 0x80\<close>\<close>
  "RuneStart b = (\<not> (0x80 \<le> rune_of b \<and> rune_of b < 0xC0))"

function backToRuneStart :: "bytes \<Rightarrow> int \<Rightarrow> int \<Rightarrow> int" where
  \<comment> \<open>the loop \<^verbatim>\<open>for start--; start >= lim; start-- { if RuneStart(p[start]) { break } }\<close>,
      entered after the first decrement\<close>
  "backToRuneStart p lim start =
     (if lim \<le> start then
        (if RuneStart (p ! nat start) then start else backToRuneStart p lim (start - 1))
      else start)"
  by pat_completeness auto
termination
  by (relation "measure (\<lambda>(p, lim, start). nat (start - lim + 1))") auto

declare backToRuneStart.simps [simp del]

definition DecodeLastRune :: "bytes \<Rightarrow> rune \<times> nat" where
  "DecodeLastRune p =
     (let end = length p in
      if end = 0 then (RuneError, 0)
      else
        let r = rune_of (p ! (end - 1)) in
        if r < RuneSelf then (r, 1)
        else
          let lim = max 0 (int end - int UTFMax);
              start = nat (max 0 (backToRuneStart p lim (int end - 2)));
              (r', size) = DecodeRune (drop start p)
          in if start + size \<noteq> end then (RuneError, 1) else (r', size))"

definition EncodeRune :: "rune \<Rightarrow> bytes" where
  \<comment> \<open>the bytes that \<^verbatim>\<open>string(r)\<close> gives for one rune\<close>
  "EncodeRune r0 =
     (let r = (if 0x10FFFF < r0 \<or> (0xD800 \<le> r0 \<and> r0 \<le> 0xDFFF) then RuneError else r0) in
      if r \<le> 0x7F then [char_of r]
      else if r \<le> 0x7FF then [char_of (0xC0 + r div 64), char_of (0x80 + r mod 64)]
      else if r \<le> 0xFFFF then
        [char_of (0xE0 + r div 4096), char_of (0x80 + (r div 64) mod 64), char_of (0x80 + r mod 64)]
      else
        [char_of (0xF0 + r div 262144), char_of (0x80 + (r div 4096) mod 64),
         char_of (0x80 + (r div 64) mod 64), char_of (0x80 + r mod 64)])"

fun runes_of :: "bytes \<Rightarrow> rune list" where
  \<comment> \<open>the conversion \<^verbatim>\<open>[]rune(string(p))\<close>\<close>
  "runes_of [] = []"
| "runes_of (c # p) =
     (let (r, wid) = DecodeRune (c # p) in r # runes_of (drop (wid - 1) p))"

definition string_of :: "rune list \<Rightarrow> bytes" where
  \<comment> \<open>the conversion \<^verbatim>\<open>string(runes)\<close>\<close>
  "string_of rs = concat (map EncodeRune rs)"

subsection \<open>Package unicode\<close>

definition unicode_IsSpace :: "rune \<Rightarrow> bool" where
  "unicode_IsSpace r =
     (if r \<le> 0xFF then r \<in> {0x09, 0x0A, 0x0B, 0x0C, 0x0D, 0x20, 0x85, 0xA0}
      else r = 0x1680 \<or> (0x2000 \<le> r \<and> r \<le> 0x200A) \<or> r = 0x2028 \<or> r = 0x2029
        \<or> r = 0x202F \<or> r = 0x205F \<or> r = 0x3000)"

definition unicode_IsLetter :: "rune \<Rightarrow> bool" where
  \<comment> \<open>on Latin-1, the only range \<^verbatim>\<open>rune(char)\<close> of a byte reaches\<close>
  "unicode_IsLetter r =
     ((0x41 \<le> r \<and> r \<le> 0x5A) \<or> (0x61 \<le> r \<and> r \<le> 0x7A) \<or> r = 0xAA \<or> r = 0xB5 \<or> r = 0xBA
      \<or> (0xC0 \<le> r \<and> r \<le> 0xD6) \<or> (0xD8 \<le> r \<and> r \<le> 0xF6) \<or> (0xF8 \<le> r \<and> r \<le> 0xFF))"

definition unicode_IsNumber :: "rune \<Rightarrow> bool" where
  \<comment> \<open>on Latin-1, as above\<close>
  "unicode_IsNumber r =
     ((0x30 \<le> r \<and> r \<le> 0x39) \<or> r = 0xB2 \<or> r = 0xB3 \<or> r = 0xB9
      \<or> (0xBC \<le> r \<and> r \<le> 0xBE))"

subsection \<open>Packages bytes and strings\<close>

fun indexFunc_from :: "(rune \<Rightarrow> bool) \<Rightarrow> bool \<Rightarrow> nat \<Rightarrow> bytes \<Rightarrow> int" where
  \<comment> \<open>the loop of \<^verbatim>\<open>indexFunc\<close>; the list is \<^verbatim>\<open>s[start:]\<close>\<close>
  "indexFunc_from f truth start [] = - 1"
| "indexFunc_from f truth start (c # p) =
     (let (r, wid) = DecodeRune (c # p) in
      if f r = truth then int start
      else indexFunc_from f truth (start + wid) (drop (wid - 1) p))"

definition indexFunc :: "bytes \<Rightarrow> (rune \<Rightarrow> bool) \<Rightarrow> bool \<Rightarrow> int" where
  "indexFunc s f truth = indexFunc_from f truth 0 s"

definition IndexFunc :: "bytes \<Rightarrow> (rune \<Rightarrow> bool) \<Rightarrow> int" where
  "IndexFunc s f = indexFunc s f True"

lemma DecodeRune_size_pos: "p \<noteq> [] \<Longrightarrow> 0 < snd (DecodeRune p)"
  by (cases p) (auto simp: Let_def)

lemma backToRuneStart_le: "backToRuneStart p lim start \<le> start"
proof (induction p lim start rule: backToRuneStart.induct)
  case (1 p lim start)
  show ?case
    using 1 by (subst backToRuneStart.simps) auto
qed

lemma DecodeLastRune_size_pos: "p \<noteq> [] \<Longrightarrow> 0 < snd (DecodeLastRune p)"
proof -
  assume ne: "p \<noteq> []"
  define start where "start = nat (max 0 (backToRuneStart p (max 0 (int (length p) - int UTFMax)) (int (length p) - 2)))"
  have "0 < length p" using ne by simp
  then have "start < length p"
    using backToRuneStart_le [of p "max 0 (int (length p) - int UTFMax)" "int (length p) - 2"]
    unfolding start_def by linarith
  then have "drop start p \<noteq> []" by simp
  then have "0 < snd (DecodeRune (drop start p))" by (rule DecodeRune_size_pos)
  then show ?thesis
    using ne by (auto simp: DecodeLastRune_def Let_def start_def split: prod.splits)
qed

function lastIndexFunc_loop :: "bytes \<Rightarrow> (rune \<Rightarrow> bool) \<Rightarrow> bool \<Rightarrow> int" where
  \<comment> \<open>the loop \<^verbatim>\<open>for i := len(s); i > 0; { ... }\<close> of \<^verbatim>\<open>lastIndexFunc\<close>; the list is
      \<^verbatim>\<open>s[0:i]\<close>\<close>
  "lastIndexFunc_loop p f truth =
     (if p \<noteq> [] then
        (let (r, size) = DecodeLastRune p; i = length p - size in
         if f r = truth then int i else lastIndexFunc_loop (take i p) f truth)
      else - 1)"
  by pat_completeness auto
termination
proof (relation "measure (\<lambda>(p, f, truth). length p)")
  show "wf (measure (\<lambda>(p, f, truth). length p))" by simp
next
  fix p :: bytes and f :: "rune \<Rightarrow> bool" and truth :: bool and x :: "rune \<times> nat"
    and r :: rune and size' :: nat and i :: nat
  assume "p \<noteq> []" and x: "x = DecodeLastRune p" and rs: "(r, size') = x"
    and i: "i = length p - size'"
  from \<open>p \<noteq> []\<close> have "0 < snd (DecodeLastRune p)" by (rule DecodeLastRune_size_pos)
  with x rs have "0 < size'" by (metis snd_conv)
  with \<open>p \<noteq> []\<close> i show "((take i p, f, truth), (p, f, truth)) \<in> measure (\<lambda>(p, f, truth). length p)"
    by (cases p) auto
qed

declare lastIndexFunc_loop.simps [simp del]

definition lastIndexFunc :: "bytes \<Rightarrow> (rune \<Rightarrow> bool) \<Rightarrow> bool \<Rightarrow> int" where
  "lastIndexFunc s f truth = lastIndexFunc_loop s f truth"

definition TrimLeftFunc :: "bytes \<Rightarrow> (rune \<Rightarrow> bool) \<Rightarrow> bytes" where
  "TrimLeftFunc s f = (let i = indexFunc s f False in if i = - 1 then [] else drop (nat i) s)"

definition TrimRightFunc :: "bytes \<Rightarrow> (rune \<Rightarrow> bool) \<Rightarrow> bytes" where
  "TrimRightFunc s f =
     (let i = lastIndexFunc s f False in
      if 0 \<le> i \<and> RuneSelf \<le> rune_of (s ! nat i)
      then take (nat i + snd (DecodeRune (drop (nat i) s))) s
      else take (nat (i + 1)) s)"

definition TrimFunc :: "bytes \<Rightarrow> (rune \<Rightarrow> bool) \<Rightarrow> bytes" where
  "TrimFunc s f = TrimRightFunc (TrimLeftFunc s f) f"

definition TrimSpace :: "bytes \<Rightarrow> bytes" where
  "TrimSpace s = TrimFunc s unicode_IsSpace"

definition HasPrefix :: "bytes \<Rightarrow> bytes \<Rightarrow> bool" where
  "HasPrefix s pre = (length pre \<le> length s \<and> take (length pre) s = pre)"

definition HasSuffix :: "bytes \<Rightarrow> bytes \<Rightarrow> bool" where
  "HasSuffix s suf = (length suf \<le> length s \<and> drop (length s - length suf) s = suf)"

definition TrimPrefix :: "bytes \<Rightarrow> bytes \<Rightarrow> bytes" where
  "TrimPrefix s pre = (if HasPrefix s pre then drop (length pre) s else s)"

definition TrimSuffix :: "bytes \<Rightarrow> bytes \<Rightarrow> bytes" where
  "TrimSuffix s suf = (if HasSuffix s suf then take (length s - length suf) s else s)"

fun Replace_crlf :: "bytes \<Rightarrow> bytes" where
  \<comment> \<open>\<^verbatim>\<open>bytes.Replace(src, []byte("\r\n"), []byte("\n"), -1)\<close>\<close>
  "Replace_crlf (c # d # p) =
     (if c = CHR 0x0D \<and> d = CHR 0x0A then CHR 0x0A # Replace_crlf p
      else c # Replace_crlf (d # p))"
| "Replace_crlf p = p"

section \<open>The parser\<close>

definition charComment :: char where "charComment = CHR ''#''"
definition prefixSingleQuote :: char where "prefixSingleQuote = CHR 0x27"
definition prefixDoubleQuote :: char where "prefixDoubleQuote = CHR 0x22"
definition exportPrefix :: bytes where "exportPrefix = ''export''"

definition isCharFunc :: "rune \<Rightarrow> rune \<Rightarrow> bool" where
  "isCharFunc char v = (v = char)"

definition isSpace :: "rune \<Rightarrow> bool" where
  "isSpace r = (r \<in> {0x09, 0x0B, 0x0C, 0x0D, 0x20, 0x85, 0xA0})"

definition isLineEnd :: "rune \<Rightarrow> bool" where
  "isLineEnd r = (r = 0x0A \<or> r = 0x0D)"

definition indexOfNonSpaceChar :: "bytes \<Rightarrow> int" where
  "indexOfNonSpaceChar src = IndexFunc src (\<lambda>r. \<not> unicode_IsSpace r)"

lemma indexFunc_from_range:
  "indexFunc_from f t start p = - 1 \<or>
   (int start \<le> indexFunc_from f t start p \<and> indexFunc_from f t start p < int start + int (length p))"
proof (induction f t start p rule: indexFunc_from.induct)
  case (1 f truth start)
  then show ?case by simp
next
  case (2 f truth start c p)
  obtain r wid where d: "DecodeRune (c # p) = (r, wid)" by (cases "DecodeRune (c # p)")
  show ?case
  proof (cases "f r = truth")
    case True
    with d show ?thesis by simp
  next
    case False
    with 2 [of "(r, wid)" r wid] d
    have "indexFunc_from f truth (start + wid) (drop (wid - 1) p) = - 1 \<or>
       (int (start + wid) \<le> indexFunc_from f truth (start + wid) (drop (wid - 1) p) \<and>
        indexFunc_from f truth (start + wid) (drop (wid - 1) p) < int (start + wid) + int (length (drop (wid - 1) p)))"
      by simp
    moreover have "0 < wid" using DecodeRune_size_pos [of "c # p"] d by simp
    ultimately show ?thesis using d False by (simp del: DecodeRune.simps) linarith
  qed
qed

lemma indexFunc_range:
  "indexFunc s f t \<noteq> - 1 \<Longrightarrow> 0 \<le> indexFunc s f t \<and> nat (indexFunc s f t) < length s"
  using indexFunc_from_range [of f t 0 s] by (auto simp: indexFunc_def)

lemma indexFunc_pos:
  assumes "s \<noteq> []" "f (fst (DecodeRune s)) \<noteq> t" "indexFunc s f t \<noteq> - 1"
  shows "0 < indexFunc s f t"
proof -
  obtain c p where s: "s = c # p" using assms(1) by (cases s) auto
  obtain r wid where d: "DecodeRune (c # p) = (r, wid)" by (cases "DecodeRune (c # p)")
  have w: "0 < wid" using DecodeRune_size_pos [of "c # p"] d by simp
  have e: "indexFunc s f t = indexFunc_from f t (0 + wid) (drop (wid - 1) p)"
    using assms(2) s d by (simp add: indexFunc_def del: DecodeRune.simps)
  from indexFunc_from_range [of f t "0 + wid" "drop (wid - 1) p"] assms(3) e w
  show ?thesis by auto
qed

function getStatementStart :: "bytes \<Rightarrow> bytes option" where
  "getStatementStart src =
     (let pos = indexOfNonSpaceChar src in
      if pos = - 1 then None
      else
        let src' = drop (nat pos) src in
        if src' ! 0 \<noteq> charComment then Some src'
        else
          let pos' = IndexFunc src' (isCharFunc 0x0A) in
          if pos' = - 1 then None else getStatementStart (drop (nat pos') src'))"
  by pat_completeness auto
termination
proof (relation "measure length")
  show "wf (measure length)" by simp
next
  fix src :: bytes and pos :: int and src' :: bytes and pos' :: int
  assume pos: "pos = indexOfNonSpaceChar src" "pos \<noteq> - 1"
    and src': "src' = drop (nat pos) src" "\<not> src' ! 0 \<noteq> charComment"
    and pos': "pos' = IndexFunc src' (isCharFunc 0x0A)" "pos' \<noteq> - 1"
  from pos have "nat pos < length src"
    using indexFunc_range [of src "\<lambda>r. \<not> unicode_IsSpace r" True]
    by (simp add: indexOfNonSpaceChar_def IndexFunc_def)
  with src' have ne: "src' \<noteq> []" by simp
  then obtain c p where cp: "src' = c # p" by (cases src') auto
  with src'(2) have "c = charComment" by simp
  then have "fst (DecodeRune src') = 0x23"
    by (simp add: cp charComment_def rune_of_def RuneSelf_def)
  then have "isCharFunc 0x0A (fst (DecodeRune src')) \<noteq> True" by (simp add: isCharFunc_def)
  from indexFunc_pos [of src' "isCharFunc 0x0A" True, OF ne this] pos' have "0 < pos'"
    by (simp add: IndexFunc_def)
  with ne have "length (drop (nat pos') src') < length src'" by simp
  also have "length src' \<le> length src" using src'(1) by simp
  finally show "(drop (nat pos') src', src) \<in> measure length" by simp
qed

declare getStatementStart.simps [simp del]


datatype error =
    UnexpectedChar char bytes
  | ZeroLength
  | Unterminated bytes

fun keyLoop :: "bytes \<Rightarrow> nat \<Rightarrow> bytes \<Rightarrow> error + (bytes \<times> nat)" where
  "keyLoop src i [] = Inr ([], 0)"
| "keyLoop src i (char # rest) =
     (let rchar = rune_of char in
      if isSpace rchar then keyLoop src (i + 1) rest
      else if char = CHR ''='' \<or> char = CHR '':'' then Inr (take i src, i + 1)
      else if char = CHR ''_'' then keyLoop src (i + 1) rest
      else if unicode_IsLetter rchar \<or> unicode_IsNumber rchar \<or> rchar = 0x2E
        then keyLoop src (i + 1) rest
      else Inl (UnexpectedChar char src))"

definition trimExport :: "bytes \<Rightarrow> bytes" where
  "trimExport src0 =
     (let src = TrimLeftFunc src0 isSpace in
      if HasPrefix src exportPrefix then
        (let trimmed = TrimPrefix src exportPrefix in
         if IndexFunc trimmed isSpace = 0 then TrimLeftFunc trimmed isSpace else src)
      else src)"

definition locateKeyName :: "bytes \<Rightarrow> error + (bytes \<times> bytes)" where
  "locateKeyName src0 =
     (let src = trimExport src0 in
      case keyLoop src 0 src of
        Inl err \<Rightarrow> Inl err
      | Inr (key, offset) \<Rightarrow>
          if length src = 0 then Inl ZeroLength
          else Inr (TrimRightFunc key unicode_IsSpace, TrimLeftFunc (drop offset src) isSpace))"

definition findEndOfLine :: "bytes \<Rightarrow> int" where
  "findEndOfLine src =
     (let endOfLine = IndexFunc src isLineEnd in
      if endOfLine = - 1 then int (length src) else endOfLine)"

fun findEndOfVar_loop :: "rune list \<Rightarrow> nat \<Rightarrow> nat" where
  "findEndOfVar_loop line 0 = length line"
| "findEndOfVar_loop line (Suc i) =
     (if line ! i = rune_of charComment \<and> 0 < i \<and> isSpace (line ! (i - 1)) then i
      else findEndOfVar_loop line i)"

definition findEndOfVar :: "rune list \<Rightarrow> nat" where
  "findEndOfVar line = findEndOfVar_loop line (length line)"

definition slice :: "'a list \<Rightarrow> nat \<Rightarrow> nat \<Rightarrow> 'a list" where
  "slice s lo hi = take (hi - lo) (drop lo s)"

definition lookup :: "(bytes \<rightharpoonup> bytes) \<Rightarrow> bytes \<Rightarrow> bytes" where
  "lookup m k = (case m k of None \<Rightarrow> [] | Some v \<Rightarrow> v)"

definition isVarChar :: "char \<Rightarrow> bool" where
  "isVarChar c =
     (let r = rune_of c in (0x41 \<le> r \<and> r \<le> 0x5A) \<or> (0x30 \<le> r \<and> r \<le> 0x39) \<or> r = 0x5F)"

fun optChar :: "char \<Rightarrow> bytes \<Rightarrow> bytes \<times> bytes" where
  "optChar c [] = ([], [])"
| "optChar c (d # s) = (if d = c then ([c], s) else ([], d # s))"

definition expandVarRegex_at :: "bytes \<Rightarrow> (bytes list \<times> bytes) option" where
  "expandVarRegex_at s =
     (let (g1, s1) = optChar (CHR 0x5C) s in
      case s1 of
        [] \<Rightarrow> None
      | d # s2 \<Rightarrow>
          if d \<noteq> CHR ''$'' then None
          else
            let (g3, s3) = optChar (CHR ''('') s2;
                (ob, s4) = optChar (CHR ''{'') s3;
                g4 = takeWhile isVarChar s4;
                s5 = dropWhile isVarChar s4;
                (cb, s6) = optChar (CHR ''}'') s5
            in Some ([g1 @ [d] @ g3 @ ob @ g4 @ cb, g1, [d], g3, g4], s6))"

fun FindStringSubmatch :: "bytes \<Rightarrow> bytes list option" where
  "FindStringSubmatch [] = None"
| "FindStringSubmatch (c # s) =
     (case expandVarRegex_at (c # s) of
        Some (submatch, rest) \<Rightarrow> Some submatch
      | None \<Rightarrow> FindStringSubmatch s)"

definition expandVar :: "(bytes \<rightharpoonup> bytes) \<Rightarrow> bytes \<Rightarrow> bytes" where
  "expandVar m s =
     (case FindStringSubmatch s of
        None \<Rightarrow> s
      | Some submatch \<Rightarrow>
          if submatch ! 1 = [CHR 0x5C] \<or> submatch ! 2 = ''('' then drop 1 (submatch ! 0)
          else if submatch ! 4 \<noteq> [] then lookup m (submatch ! 4)
          else s)"

lemma optChar_length: "optChar c s = (g, t) \<Longrightarrow> length t \<le> length s"
  by (cases s) (auto split: if_splits)

lemma expandVarRegex_at_rest:
  assumes "expandVarRegex_at s = Some (submatch, rest)"
  shows "length rest < length s"
proof -
  obtain g1 s1 where a: "optChar (CHR 0x5C) s = (g1, s1)" by (cases "optChar (CHR 0x5C) s")
  from assms a obtain d s2 where s1: "s1 = d # s2"
    by (cases s1) (auto simp: expandVarRegex_at_def)
  obtain g3 s3 where b: "optChar (CHR ''('') s2 = (g3, s3)" by (cases "optChar (CHR ''('') s2")
  obtain ob s4 where c: "optChar (CHR ''{'') s3 = (ob, s4)" by (cases "optChar (CHR ''{'') s3")
  obtain cb s6 where e: "optChar (CHR ''}'') (dropWhile isVarChar s4) = (cb, s6)"
    by (cases "optChar (CHR ''}'') (dropWhile isVarChar s4)")
  from assms a s1 b c e have "rest = s6"
    by (auto simp: expandVarRegex_at_def Let_def split: if_splits)
  moreover have "length s6 \<le> length (dropWhile isVarChar s4)" using e by (rule optChar_length)
  moreover have "length (dropWhile isVarChar s4) \<le> length s4" by (rule length_dropWhile_le)
  moreover have "length s4 \<le> length s3" using c by (rule optChar_length)
  moreover have "length s3 \<le> length s2" using b by (rule optChar_length)
  moreover have "length s1 \<le> length s" using a by (rule optChar_length)
  ultimately show ?thesis using s1 by simp
qed

function ReplaceAll_expandVar :: "(bytes \<rightharpoonup> bytes) \<Rightarrow> bytes \<Rightarrow> bytes" where
  "ReplaceAll_expandVar m [] = []"
| "ReplaceAll_expandVar m (c # s) =
     (case expandVarRegex_at (c # s) of
        Some (submatch, rest) \<Rightarrow> expandVar m (submatch ! 0) @ ReplaceAll_expandVar m rest
      | None \<Rightarrow> c # ReplaceAll_expandVar m s)"
  by pat_completeness auto
termination
proof (relation "measure (\<lambda>(m, s). length s)")
  show "wf (measure (\<lambda>(m, s). length s))" by simp
next
  fix m :: "bytes \<rightharpoonup> bytes" and c :: char and s :: bytes
  show "((m, s), (m, c # s)) \<in> measure (\<lambda>(m, s). length s)" by simp
next
  fix m :: "bytes \<rightharpoonup> bytes" and c s x2 x y
  assume "expandVarRegex_at (c # s) = Some x2" "(x, y) = x2"
  then have "expandVarRegex_at (c # s) = Some (x, y)" by simp
  then have "length y < length (c # s)" by (rule expandVarRegex_at_rest)
  then show "((m, y), (m, c # s)) \<in> measure (\<lambda>(m, s). length s)" by simp
qed

definition expandVariables :: "bytes \<Rightarrow> (bytes \<rightharpoonup> bytes) \<Rightarrow> bytes" where
  "expandVariables v m = ReplaceAll_expandVar m v"

fun ReplaceAll_escape :: "bytes \<Rightarrow> bytes" where
  "ReplaceAll_escape (c # d # s) =
     (if c = CHR 0x5C \<and> d \<noteq> CHR 0x0A then
        (if [d] = ''n'' then CHR 0x0A # ReplaceAll_escape s
         else if [d] = ''r'' then CHR 0x0D # ReplaceAll_escape s
         else c # d # ReplaceAll_escape s)
      else c # ReplaceAll_escape (d # s))"
| "ReplaceAll_escape s = s"

fun ReplaceAll_unescapeChars :: "bytes \<Rightarrow> bytes" where
  "ReplaceAll_unescapeChars (c # d # s) =
     (if c = CHR 0x5C \<and> d \<noteq> CHR ''$'' then d # ReplaceAll_unescapeChars s
      else c # ReplaceAll_unescapeChars (d # s))"
| "ReplaceAll_unescapeChars s = s"

definition expandEscapes :: "bytes \<Rightarrow> bytes" where
  "expandEscapes str = (let out = ReplaceAll_escape str in ReplaceAll_unescapeChars out)"

definition hasQuotePrefix :: "bytes \<Rightarrow> char \<times> bool" where
  "hasQuotePrefix src =
     (case src of
        [] \<Rightarrow> (CHR 0x00, False)
      | prefix # _ \<Rightarrow>
          if prefix = prefixDoubleQuote \<or> prefix = prefixSingleQuote then (prefix, True)
          else (CHR 0x00, False))"

definition extractUnquotedValue ::
  "bytes \<Rightarrow> (bytes \<rightharpoonup> bytes) \<Rightarrow> error + (bytes \<times> bytes \<times> bytes)" where
  "extractUnquotedValue src vars =
     (let endOfLine0 = findEndOfLine src in
      if endOfLine0 = - 1 \<and> length src = 0 then Inr ([], [], [])
      else
        let endOfLine = (if endOfLine0 = - 1 then length src else nat endOfLine0);
            line = runes_of (slice src 0 endOfLine);
            endOfVar = findEndOfVar line;
            (trimmed, comment) =
              (if 0 < length line \<and> endOfVar = endOfLine \<and> HasPrefix (string_of line) ''#''
               then ([], TrimSpace (string_of (slice line 1 endOfLine)))
               else (TrimFunc (string_of (slice line 0 endOfVar)) isSpace,
                     if endOfVar + 1 < endOfLine
                     then TrimSpace (slice src (endOfVar + 1) endOfLine) else []))
        in Inr (expandVariables trimmed vars, comment, drop endOfLine src))"

function quoteLoop :: "bytes \<Rightarrow> char \<Rightarrow> nat \<Rightarrow> nat option" where
  "quoteLoop src quote i =
     (if i < length src then
        (if src ! i \<noteq> quote then quoteLoop src quote (i + 1)
         else if src ! (i - 1) = CHR 0x5C then quoteLoop src quote (i + 1)
         else Some i)
      else None)"
  by pat_completeness auto
termination
  by (relation "measure (\<lambda>(src, quote, i). length src - i)") auto

declare quoteLoop.simps [simp del]

definition extractQuotedValue ::
  "bytes \<Rightarrow> (bytes \<rightharpoonup> bytes) \<Rightarrow> char \<Rightarrow> error + (bytes \<times> bytes \<times> bytes)" where
  "extractQuotedValue src vars quote =
     (case quoteLoop src quote 1 of
        Some i \<Rightarrow>
          let trimFunc = isCharFunc (rune_of quote);
              val = TrimLeftFunc (TrimRightFunc (slice src 0 i) trimFunc) trimFunc;
              endOfLine0 = findEndOfLine src
          in
            if endOfLine0 = - 1 \<and> length src = 0 then Inr ([], [], [])
            else
              let endOfLine = (if endOfLine0 = - 1 then length src else nat endOfLine0);
                  line = runes_of (slice src 0 endOfLine);
                  endOfVar = findEndOfVar line;
                  comment = (if endOfVar + 1 < endOfLine
                             then TrimSpace (slice src (endOfVar + 1) endOfLine) else []);
                  val' = (if quote = prefixDoubleQuote
                          then expandVariables (expandEscapes val) vars else val)
              in Inr (val', comment, drop (i + 1) src)
      | None \<Rightarrow>
          let valEndIndex0 = findEndOfLine src;
              valEndIndex = (if valEndIndex0 = - 1 then length src else nat valEndIndex0)
          in Inl (Unterminated (take valEndIndex src)))"

definition extractVarValue ::
  "bytes \<Rightarrow> (bytes \<rightharpoonup> bytes) \<Rightarrow> error + (bytes \<times> bytes \<times> bytes)" where
  "extractVarValue src vars =
     (let (quote, hasPrefix) = hasQuotePrefix src in
      if \<not> hasPrefix then extractUnquotedValue src vars
      else extractQuotedValue src vars quote)"


lemma getStatementStart_length:
  "getStatementStart src = Some src' \<Longrightarrow> length src' \<le> length src"
proof (induction src rule: getStatementStart.induct)
  case (1 src)
  define pos where "pos = indexOfNonSpaceChar src"
  define s1 where "s1 = drop (nat pos) src"
  define pos' where "pos' = IndexFunc s1 (isCharFunc 0x0A)"
  have l1: "length s1 \<le> length src" by (simp add: s1_def)
  show ?case
  proof (cases "pos \<noteq> - 1 \<and> \<not> s1 ! 0 \<noteq> charComment \<and> pos' \<noteq> - 1")
    case True
    then have "getStatementStart src = getStatementStart (drop (nat pos') s1)"
      by (subst getStatementStart.simps) (simp add: pos_def [symmetric] s1_def [symmetric] pos'_def [symmetric] Let_def)
    with "1.prems" have "getStatementStart (drop (nat pos') s1) = Some src'" by simp
    with "1.IH" [OF pos_def _ s1_def _ pos'_def] True
    have "length src' \<le> length (drop (nat pos') s1)" by simp
    with l1 show ?thesis by simp
  next
    case False
    with "1.prems" have "src' = s1"
      by (subst (asm) getStatementStart.simps)
         (auto simp: pos_def [symmetric] s1_def [symmetric] pos'_def [symmetric] Let_def split: if_splits)
    with l1 show ?thesis by simp
  qed
qed

lemma TrimLeftFunc_length: "length (TrimLeftFunc s f) \<le> length s"
  by (simp add: TrimLeftFunc_def Let_def)

lemma trimExport_length: "length (trimExport s) \<le> length s"
proof -
  have a: "length (TrimLeftFunc s isSpace) \<le> length s" by (rule TrimLeftFunc_length)
  have b: "length (TrimLeftFunc (TrimPrefix (TrimLeftFunc s isSpace) exportPrefix) isSpace)
             \<le> length (TrimLeftFunc s isSpace)"
    using TrimLeftFunc_length [of "TrimPrefix (TrimLeftFunc s isSpace) exportPrefix" isSpace]
    by (simp add: TrimPrefix_def split: if_splits)
  show ?thesis using a b by (simp add: trimExport_def Let_def)
qed

lemma keyLoop_offset: "keyLoop src i rest = Inr (key, offset) \<Longrightarrow> key \<noteq> [] \<Longrightarrow> 0 < offset"
  by (induction src i rest rule: keyLoop.induct) (auto simp: Let_def split: if_splits)

lemma TrimRightFunc_Nil: "TrimRightFunc [] f = []"
  by (simp add: TrimRightFunc_def Let_def)

lemma locateKeyName_length:
  assumes "locateKeyName c = Inr (key, left)" "key \<noteq> []"
  shows "length left < length c"
proof -
  define src where "src = trimExport c"
  from assms(1) obtain key0 offset where k: "keyLoop src 0 src = Inr (key0, offset)"
    and ne: "src \<noteq> []" and key: "key = TrimRightFunc key0 unicode_IsSpace"
    and left: "left = TrimLeftFunc (drop offset src) isSpace"
    by (auto simp: locateKeyName_def src_def [symmetric] Let_def split: sum.splits if_splits)
  from key assms(2) have "key0 \<noteq> []" by (auto simp: TrimRightFunc_Nil)
  with k have "0 < offset" by (rule keyLoop_offset)
  with ne have "length (drop offset src) < length src" by simp
  moreover have "length left \<le> length (drop offset src)" unfolding left by (rule TrimLeftFunc_length)
  moreover have "length src \<le> length c" unfolding src_def by (rule trimExport_length)
  ultimately show ?thesis by simp
qed

lemma extractVarValue_length:
  "extractVarValue src vars = Inr (val, comment, rest) \<Longrightarrow> length rest \<le> length src"
  by (auto simp: extractVarValue_def extractUnquotedValue_def extractQuotedValue_def Let_def
           split: prod.splits if_splits option.splits)

type_synonym env = "bytes \<rightharpoonup> bytes"

function parseLoop :: "bytes \<Rightarrow> env \<Rightarrow> env option \<Rightarrow> error option \<times> env \<times> env option" where
  "parseLoop cutset out comments =
     (case getStatementStart cutset of
        None \<Rightarrow> (None, out, comments)
      | Some cutset' \<Rightarrow>
          (case locateKeyName cutset' of
             Inl err \<Rightarrow> (Some err, out, comments)
           | Inr (key, left) \<Rightarrow>
               if key = [] then (None, out, comments)
               else
                 (case extractVarValue left out of
                    Inl err \<Rightarrow> (Some err, out, comments)
                  | Inr (val, comment, left') \<Rightarrow>
                      parseLoop left' (out(key \<mapsto> val))
                        (case comments of
                           None \<Rightarrow> None
                         | Some cm \<Rightarrow>
                             if 0 < length comment then Some (cm(key \<mapsto> comment))
                             else Some cm))))"
  by pat_completeness auto
termination
proof (relation "measure (\<lambda>(cutset, out, comments). length cutset)")
  show "wf (measure (\<lambda>(cutset, out, comments). length cutset))" by simp
next
  fix cutset :: bytes and out :: env and comments :: "env option" and cutset' x key left y val z comment left'
  assume a: "getStatementStart cutset = Some cutset'"
    and b: "locateKeyName cutset' = Inr x" "(key, left) = x" "key \<noteq> []"
    and c: "extractVarValue left out = Inr y" "(val, z) = y" "(comment, left') = z"
  from a have "length cutset' \<le> length cutset" by (rule getStatementStart_length)
  moreover from b have "length left < length cutset'" by (auto intro: locateKeyName_length)
  moreover from c have "length left' \<le> length left" by (auto intro: extractVarValue_length)
  ultimately show "((left', out(key \<mapsto> val),
      case comments of None \<Rightarrow> None
      | Some cm \<Rightarrow> if 0 < length comment then Some (cm(key \<mapsto> comment)) else Some cm),
     cutset, out, comments) \<in> measure (\<lambda>(cutset, out, comments). length cutset)"
    by simp
qed

declare parseLoop.simps [simp del]

definition parseBytesWithComments ::
  "bytes \<Rightarrow> env \<Rightarrow> env option \<Rightarrow> error option \<times> env \<times> env option" where
  "parseBytesWithComments src0 out comments =
     (let src = Replace_crlf src0 in parseLoop src out comments)"

definition parseBytes :: "bytes \<Rightarrow> env \<Rightarrow> error option \<times> env" where
  "parseBytes src out = (case parseBytesWithComments src out None of (err, out', _) \<Rightarrow> (err, out'))"

section \<open>Annotations (spec.go)\<close>

text \<open>
  Three parts of Go's library are parameters of the model: \<^verbatim>\<open>json.Unmarshal\<close> into a
  \<^verbatim>\<open>map[string]interface{}\<close> (\<open>None\<close> when it returns an error), and the Unicode case
  tables \<^verbatim>\<open>unicode.ToUpper\<close> and \<^verbatim>\<open>unicode.ToLower\<close>, which \<^verbatim>\<open>strings.ToUpper\<close> and
  \<^verbatim>\<open>strings.ToLower\<close> consult only for a string with a byte outside ASCII. A decoded
  \<^verbatim>\<open>float64\<close> is kept through its conversion \<^verbatim>\<open>int(length)\<close>, the one use the code has
  for it.
\<close>

datatype jvalue = JFloat64 int | JOther

record library =
  json_Unmarshal :: "bytes \<Rightarrow> (bytes \<rightharpoonup> jvalue) option"
  unicode_ToUpper :: "rune \<Rightarrow> rune"
  unicode_ToLower :: "rune \<Rightarrow> rune"

record Spec =
  Name :: bytes
  Required :: bool
  Valid :: bool

definition SpecNameOpaque :: bytes where "SpecNameOpaque = ''Opaque''"
definition SpecNamePlain :: bytes where "SpecNamePlain = ''Plain''"
definition SpecNameSecret :: bytes where "SpecNameSecret = ''Secret''"
definition SpecNamePassword :: bytes where "SpecNamePassword = ''Password''"
definition SpecNameNumber :: bytes where "SpecNameNumber = ''Number''"

definition validateInput :: "Spec \<Rightarrow> bytes \<Rightarrow> (bytes \<rightharpoonup> jvalue) option \<Rightarrow> Spec" where
  "validateInput spec val params =
     (if TrimSpace val \<noteq> [] then
        (let spec1 = spec\<lparr>Valid := True\<rparr> in
         if Required spec1 \<and> params \<noteq> None then
           (case the params ''length'' of
              Some (JFloat64 len) \<Rightarrow> spec1\<lparr>Valid := (int (length val) = len)\<rparr>
            | _ \<Rightarrow> spec1)
         else spec1)
      else spec)"

definition specsHandlers ::
  "bytes \<Rightarrow> (Spec \<Rightarrow> bytes \<Rightarrow> (bytes \<rightharpoonup> jvalue) option \<Rightarrow> Spec) option" where
  "specsHandlers name =
     (if name = SpecNameOpaque \<or> name = SpecNamePlain \<or> name = SpecNameSecret
         \<or> name = SpecNamePassword \<or> name = SpecNameNumber
      then Some validateInput else None)"

definition strings_Map :: "(rune \<Rightarrow> rune) \<Rightarrow> bytes \<Rightarrow> bytes" where
  "strings_Map mapping s = string_of (map mapping (runes_of s))"

definition ToUpper :: "library \<Rightarrow> bytes \<Rightarrow> bytes" where
  "ToUpper lib s =
     (if list_all (\<lambda>c. rune_of c < RuneSelf) s then
        map (\<lambda>c. if 0x61 \<le> rune_of c \<and> rune_of c \<le> 0x7A then char_of (rune_of c - 0x20) else c) s
      else strings_Map (unicode_ToUpper lib) s)"

definition ToLower :: "library \<Rightarrow> bytes \<Rightarrow> bytes" where
  "ToLower lib s =
     (if list_all (\<lambda>c. rune_of c < RuneSelf) s then
        map (\<lambda>c. if 0x41 \<le> rune_of c \<and> rune_of c \<le> 0x5A then char_of (rune_of c + 0x20) else c) s
      else strings_Map (unicode_ToLower lib) s)"

definition upperFirstLetter :: "library \<Rightarrow> bytes \<Rightarrow> bytes" where
  "upperFirstLetter lib s =
     (if length s = 0 then s
      else ToUpper lib (EncodeRune (rune_of (s ! 0))) @ ToLower lib (drop 1 s))"

definition SplitN2 :: "bytes \<Rightarrow> char \<Rightarrow> bytes list" where
  \<comment> \<open>\<^verbatim>\<open>strings.SplitN(s, sep, 2)\<close> for a separator of one byte\<close>
  "SplitN2 s sep =
     (if sep \<in> set s then [takeWhile (\<lambda>c. c \<noteq> sep) s, drop 1 (dropWhile (\<lambda>c. c \<noteq> sep) s)]
      else [s])"

definition generateSpec :: "library \<Rightarrow> bytes \<Rightarrow> bytes \<Rightarrow> Spec" where
  \<comment> \<open>the body of the loop of \<^verbatim>\<open>GenerateSpecsFromComments\<close>: the spec stored for a key, from
      the key's value and its comment\<close>
  "generateSpec lib val comment =
     (let spec = \<lparr>Name = SpecNameOpaque, Required = False, Valid = False\<rparr> in
      if comment = [] then spec
      else
        let parts = SplitN2 comment (CHR '':'');
            name = upperFirstLetter lib (parts ! 0);
            jsonMap =
              (if 1 < length parts then
                 (case json_Unmarshal lib (parts ! 1) of
                    None \<Rightarrow> Some Map.empty
                  | Some m \<Rightarrow> Some m)
               else None);
            spec1 = (if HasSuffix name ''!'' then spec\<lparr>Required := True\<rparr> else spec);
            name1 = TrimSuffix name ''!'';
            spec2 = (if name1 \<noteq> [] then spec1\<lparr>Name := name1\<rparr> else spec1)
        in case specsHandlers (Name spec2) of
             Some handler \<Rightarrow> handler spec2 val jsonMap
           | None \<Rightarrow> spec2)"

definition GenerateSpecsFromComments :: "library \<Rightarrow> env \<Rightarrow> env \<Rightarrow> (bytes \<rightharpoonup> Spec)" where
  "GenerateSpecsFromComments lib values comments =
     (\<lambda>key. case values key of
        None \<Rightarrow> None
      | Some val \<Rightarrow> Some (generateSpec lib val (lookup comments key)))"

section \<open>Evaluation on concrete buffers\<close>

lemma char_of_eval:
  "char_of (n::nat) = Char (odd n) (odd (n div 2)) (odd (n div 4)) (odd (n div 8))
     (odd (n div 16)) (odd (n div 32)) (odd (n div 64)) (odd (n div 128))"
  by (simp add: char_of_def bit_iff_odd)

lemmas ev = parseBytes_def parseBytesWithComments_def parseLoop.simps getStatementStart.simps
  indexOfNonSpaceChar_def IndexFunc_def indexFunc_def Let_def rune_of_def RuneSelf_def
  unicode_IsSpace_def charComment_def locateKeyName_def trimExport_def TrimLeftFunc_def isSpace_def
  HasPrefix_def exportPrefix_def unicode_IsLetter_def unicode_IsNumber_def TrimRightFunc_def
  lastIndexFunc_def lastIndexFunc_loop.simps DecodeLastRune_def extractVarValue_def hasQuotePrefix_def
  prefixDoubleQuote_def prefixSingleQuote_def extractUnquotedValue_def findEndOfLine_def isLineEnd_def
  slice_def findEndOfVar_def TrimFunc_def TrimSpace_def string_of_def EncodeRune_def expandVariables_def
  expandVarRegex_at_def expandVar_def lookup_def isVarChar_def extractQuotedValue_def quoteLoop.simps
  isCharFunc_def expandEscapes_def TrimPrefix_def char_of_eval runeSize_def acceptLo_def acceptHi_def
  RuneError_def RuneStart_def backToRuneStart.simps UTFMax_def

lemmas ev_spec = GenerateSpecsFromComments_def generateSpec_def SplitN2_def upperFirstLetter_def
  ToUpper_def ToLower_def HasSuffix_def TrimSuffix_def specsHandlers_def validateInput_def
  SpecNameOpaque_def SpecNamePlain_def SpecNameSecret_def SpecNamePassword_def SpecNameNumber_def

definition example_library :: library where
  \<comment> \<open>a library for concrete evaluation: its decoder knows the one parameter block
      \<^verbatim>\<open>{"length":8}\<close>, and no text it is given has a byte outside ASCII\<close>
  \<open>example_library =
     \<lparr>json_Unmarshal =
        (\<lambda>s. if s = ''{"length":8}'' then Some [''length'' \<mapsto> JFloat64 8] else None),
      unicode_ToUpper = (\<lambda>r. r), unicode_ToLower = (\<lambda>r. r)\<rparr>\<close>

section \<open>Properties of the library functions\<close>

lemma rune_of_less_256: "rune_of c < 256"
  by (simp add: rune_of_def)

lemma rune_of_inj: "rune_of c = rune_of d \<longleftrightarrow> c = d"
  by (simp add: rune_of_def)

lemma DecodeRune_ascii:
  "rune_of c < RuneSelf \<Longrightarrow> DecodeRune (c # p) = (rune_of c, 1)"
  by (simp add: Let_def)

lemma DecodeRune_unfold:
  assumes "\<not> rune_of c < RuneSelf"
  shows "DecodeRune (c # p) =
      (if runeSize (rune_of c) = 0 then (RuneError, 1)
       else if Suc (length p) < runeSize (rune_of c) then (RuneError, 1)
       else if rune_of (p ! 0) < acceptLo (rune_of c) \<or> acceptHi (rune_of c) < rune_of (p ! 0)
         then (RuneError, 1)
       else if runeSize (rune_of c) \<le> 2
         then ((rune_of c mod 32) * 64 + rune_of (p ! 0) mod 64, 2)
       else if rune_of (p ! 1) < 0x80 \<or> 0xBF < rune_of (p ! 1) then (RuneError, 1)
       else if runeSize (rune_of c) \<le> 3
         then ((rune_of c mod 16) * 4096 + (rune_of (p ! 0) mod 64) * 64 + rune_of (p ! 1) mod 64, 3)
       else if rune_of (p ! 2) < 0x80 \<or> 0xBF < rune_of (p ! 2) then (RuneError, 1)
       else ((rune_of c mod 8) * 262144 + (rune_of (p ! 0) mod 64) * 4096
               + (rune_of (p ! 1) mod 64) * 64 + rune_of (p ! 2) mod 64, 4))"
  using assms by (simp only: DecodeRune.simps Let_def if_False)

lemma DecodeRune_shape:
  assumes na: "\<not> rune_of c < RuneSelf"
  shows "DecodeRune (c # p) = (RuneError, 1)
    \<or> (runeSize (rune_of c) = 2 \<and> 1 \<le> length p \<and> acceptLo (rune_of c) \<le> rune_of (p ! 0) \<and>
        DecodeRune (c # p) = ((rune_of c mod 32) * 64 + rune_of (p ! 0) mod 64, 2))
    \<or> (runeSize (rune_of c) = 3 \<and> 2 \<le> length p \<and> acceptLo (rune_of c) \<le> rune_of (p ! 0) \<and>
        rune_of (p ! 0) \<le> 191 \<and>
        DecodeRune (c # p) = ((rune_of c mod 16) * 4096 + (rune_of (p ! 0) mod 64) * 64
            + rune_of (p ! 1) mod 64, 3))
    \<or> (runeSize (rune_of c) = 4 \<and> 3 \<le> length p \<and> acceptLo (rune_of c) \<le> rune_of (p ! 0) \<and>
        rune_of (p ! 0) \<le> 191 \<and>
        DecodeRune (c # p) = ((rune_of c mod 8) * 262144 + (rune_of (p ! 0) mod 64) * 4096
            + (rune_of (p ! 1) mod 64) * 64 + rune_of (p ! 2) mod 64, 4))"
proof -
  define p0 where "p0 = rune_of c"
  define sz where "sz = runeSize p0"
  define b1 where "b1 = rune_of (p ! 0)"
  define b2 where "b2 = rune_of (p ! 1)"
  define b3 where "b3 = rune_of (p ! 2)"
  have sz: "sz = 0 \<or> sz = 2 \<or> sz = 3 \<or> sz = 4"
    using na by (simp add: sz_def p0_def runeSize_def RuneSelf_def)
  have D: "DecodeRune (c # p) =
      (if sz = 0 then (RuneError, 1)
       else if Suc (length p) < sz then (RuneError, 1)
       else if b1 < acceptLo p0 \<or> acceptHi p0 < b1 then (RuneError, 1)
       else if sz \<le> 2 then ((p0 mod 32) * 64 + b1 mod 64, 2)
       else if b2 < 0x80 \<or> 0xBF < b2 then (RuneError, 1)
       else if sz \<le> 3 then ((p0 mod 16) * 4096 + (b1 mod 64) * 64 + b2 mod 64, 3)
       else if b3 < 0x80 \<or> 0xBF < b3 then (RuneError, 1)
       else ((p0 mod 8) * 262144 + (b1 mod 64) * 4096 + (b2 mod 64) * 64 + b3 mod 64, 4))"
    using na unfolding p0_def sz_def b1_def b2_def b3_def
    by (simp only: DecodeRune.simps Let_def if_False)
  show ?thesis
  proof (cases "sz = 0 \<or> Suc (length p) < sz \<or> b1 < acceptLo p0 \<or> acceptHi p0 < b1")
    case True
    then have "DecodeRune (c # p) = (RuneError, 1)" unfolding D by auto
    then show ?thesis by simp
  next
    case F1: False
    show ?thesis
    proof (cases "sz \<le> 2")
      case True
      with F1 sz have "sz = 2" "1 \<le> length p" "acceptLo p0 \<le> b1" by (cases p; auto)+
      moreover from F1 True have "DecodeRune (c # p) = ((p0 mod 32) * 64 + b1 mod 64, 2)"
        unfolding D by simp
      ultimately show ?thesis unfolding p0_def sz_def b1_def by simp
    next
      case F2: False
      show ?thesis
      proof (cases "b2 < 0x80 \<or> 0xBF < b2")
        case True
        with F1 F2 have "DecodeRune (c # p) = (RuneError, 1)" unfolding D by simp
        then show ?thesis by simp
      next
        case F3: False
        show ?thesis
        proof (cases "sz \<le> 3")
          case True
          with F1 F2 sz have "sz = 3" "2 \<le> length p" "acceptLo p0 \<le> b1" "b1 \<le> 191"
            by (auto simp: acceptHi_def split: if_splits)
          moreover from F1 F2 F3 True
          have "DecodeRune (c # p) = ((p0 mod 16) * 4096 + (b1 mod 64) * 64 + b2 mod 64, 3)"
            unfolding D by simp
          ultimately show ?thesis unfolding p0_def sz_def b1_def b2_def by simp
        next
          case F4: False
          show ?thesis
          proof (cases "b3 < 0x80 \<or> 0xBF < b3")
            case True
            with F1 F2 F3 F4 have "DecodeRune (c # p) = (RuneError, 1)" unfolding D by simp
            then show ?thesis by simp
          next
            case F5: False
            from F1 F4 sz have "sz = 4" "3 \<le> length p" "acceptLo p0 \<le> b1" "b1 \<le> 191"
              by (auto simp: acceptHi_def split: if_splits)
            moreover from F1 F2 F3 F4 F5
            have "DecodeRune (c # p) =
              ((p0 mod 8) * 262144 + (b1 mod 64) * 4096 + (b2 mod 64) * 64 + b3 mod 64, 4)"
              unfolding D by simp
            ultimately show ?thesis unfolding p0_def sz_def b1_def b2_def b3_def by simp
          qed
        qed
      qed
    qed
  qed
qed

lemma mod_offset:
  fixes n :: nat
  assumes "q * m \<le> n" "n < q * m + m"
  shows "n mod m = n - q * m"
proof -
  from assms(1) obtain k where k: "n = q * m + k" by (auto simp: le_iff_add)
  with assms(2) have "k < m" by simp
  then show ?thesis unfolding k by simp
qed

lemma mod32_ge2: "194 \<le> (n::nat) \<Longrightarrow> n < 224 \<Longrightarrow> 2 \<le> n mod 32"
  using mod_offset [of 6 32 n] by simp

lemma mod16_ge1: "224 < (n::nat) \<Longrightarrow> n < 240 \<Longrightarrow> 1 \<le> n mod 16"
  using mod_offset [of 14 16 n] by simp

lemma mod8_ge1: "240 < (n::nat) \<Longrightarrow> n < 245 \<Longrightarrow> 1 \<le> n mod 8"
  using mod_offset [of 30 8 n] by simp

lemma mod64_ge32: "160 \<le> (b::nat) \<Longrightarrow> b \<le> 191 \<Longrightarrow> 32 \<le> b mod 64"
  using mod_offset [of 2 64 b] by simp

lemma mod64_ge16: "144 \<le> (b::nat) \<Longrightarrow> b \<le> 191 \<Longrightarrow> 16 \<le> b mod 64"
  using mod_offset [of 2 64 b] by simp

lemma DecodeRune_nonascii:
  assumes na: "\<not> rune_of c < RuneSelf"
  shows "RuneSelf \<le> fst (DecodeRune (c # p))"
proof -
  define p0 where "p0 = rune_of c"
  define b1 where "b1 = rune_of (p ! 0)"
  have lo: "\<And>a b :: nat. 2 \<le> a \<Longrightarrow> 128 \<le> a * 64 + b" by simp
  have lo3: "\<And>a b c :: nat. 1 \<le> a \<or> 32 \<le> b \<Longrightarrow> 128 \<le> a * 4096 + b * 64 + c" by auto
  have lo4: "\<And>a b c d :: nat. 1 \<le> a \<or> 16 \<le> b \<Longrightarrow> 128 \<le> a * 262144 + b * 4096 + c * 64 + d"
    by auto
  have m2: "runeSize p0 = 2 \<Longrightarrow> 2 \<le> p0 mod 32"
  proof -
    assume "runeSize p0 = 2"
    then have "194 \<le> p0" "p0 < 224" unfolding runeSize_def by (simp_all split: if_splits)
    then show ?thesis by (rule mod32_ge2)
  qed
  have m3: "runeSize p0 = 3 \<Longrightarrow> acceptLo p0 \<le> b1 \<Longrightarrow> b1 \<le> 191 \<Longrightarrow> 1 \<le> p0 mod 16 \<or> 32 \<le> b1 mod 64"
  proof -
    assume a: "runeSize p0 = 3" "acceptLo p0 \<le> b1" and b: "b1 \<le> 191"
    have r: "224 \<le> p0" "p0 < 240" using a(1) unfolding runeSize_def by (simp_all split: if_splits)
    show ?thesis
    proof (cases "p0 = 224")
      case True
      with a(2) have "160 \<le> b1" by (simp add: acceptLo_def)
      then have "32 \<le> b1 mod 64" using b by (rule mod64_ge32)
      then show ?thesis by (rule disjI2)
    next
      case False
      with r have "224 < p0" by simp
      then have "1 \<le> p0 mod 16" using r(2) by (rule mod16_ge1)
      then show ?thesis by (rule disjI1)
    qed
  qed
  have m4: "runeSize p0 = 4 \<Longrightarrow> acceptLo p0 \<le> b1 \<Longrightarrow> b1 \<le> 191 \<Longrightarrow> 1 \<le> p0 mod 8 \<or> 16 \<le> b1 mod 64"
  proof -
    assume a: "runeSize p0 = 4" "acceptLo p0 \<le> b1" and b: "b1 \<le> 191"
    have r: "240 \<le> p0" "p0 < 245" using a(1) unfolding runeSize_def by (simp_all split: if_splits)
    show ?thesis
    proof (cases "p0 = 240")
      case True
      with a(2) have "144 \<le> b1" by (simp add: acceptLo_def)
      then have "16 \<le> b1 mod 64" using b by (rule mod64_ge16)
      then show ?thesis by (rule disjI2)
    next
      case False
      with r have "240 < p0" by simp
      then have "1 \<le> p0 mod 8" using r(2) by (rule mod8_ge1)
      then show ?thesis by (rule disjI1)
    qed
  qed
  have R: "RuneSelf = 128" by (simp add: RuneSelf_def)
  from DecodeRune_shape [OF na, of p] show ?thesis
  proof (elim disjE conjE)
    assume "DecodeRune (c # p) = (RuneError, 1)"
    then show ?thesis by (simp add: RuneError_def RuneSelf_def)
  next
    assume s: "runeSize (rune_of c) = 2"
      and e: "DecodeRune (c # p) = (rune_of c mod 32 * 64 + rune_of (p ! 0) mod 64, 2)"
    have "128 \<le> rune_of c mod 32 * 64 + rune_of (p ! 0) mod 64"
      by (rule lo) (rule m2 [unfolded p0_def, OF s])
    then show ?thesis unfolding e R fst_conv .
  next
    assume s: "runeSize (rune_of c) = 3" "acceptLo (rune_of c) \<le> rune_of (p ! 0)"
      "rune_of (p ! 0) \<le> 191"
      and e: "DecodeRune (c # p) =
        (rune_of c mod 16 * 4096 + rune_of (p ! 0) mod 64 * 64 + rune_of (p ! 1) mod 64, 3)"
    have "128 \<le> rune_of c mod 16 * 4096 + rune_of (p ! 0) mod 64 * 64 + rune_of (p ! 1) mod 64"
      by (rule lo3) (rule m3 [unfolded p0_def b1_def, OF s])
    then show ?thesis unfolding e R fst_conv .
  next
    assume s: "runeSize (rune_of c) = 4" "acceptLo (rune_of c) \<le> rune_of (p ! 0)"
      "rune_of (p ! 0) \<le> 191"
      and e: "DecodeRune (c # p) = (rune_of c mod 8 * 262144 + rune_of (p ! 0) mod 64 * 4096
          + rune_of (p ! 1) mod 64 * 64 + rune_of (p ! 2) mod 64, 4)"
    have "128 \<le> rune_of c mod 8 * 262144 + rune_of (p ! 0) mod 64 * 4096
          + rune_of (p ! 1) mod 64 * 64 + rune_of (p ! 2) mod 64"
      by (rule lo4) (rule m4 [unfolded p0_def b1_def, OF s])
    then show ?thesis unfolding e R fst_conv .
  qed
qed

lemma indexFunc_from_ascii:
  "rune_of c < RuneSelf \<Longrightarrow>
   indexFunc_from f t start (c # p) =
     (if f (rune_of c) = t then int start else indexFunc_from f t (Suc start) p)"
  by (simp add: Let_def)

lemma indexFunc_from_skip:
  assumes "\<forall>c\<in>set xs. rune_of c < RuneSelf \<and> f (rune_of c) \<noteq> t"
  shows "indexFunc_from f t start (xs @ ys) = indexFunc_from f t (start + length xs) ys"
  using assms
proof (induction xs arbitrary: start)
  case Nil
  then show ?case by simp
next
  case (Cons x xs)
  then have "indexFunc_from f t start ((x # xs) @ ys) = indexFunc_from f t (Suc start) (xs @ ys)"
    by (simp add: indexFunc_from_ascii del: indexFunc_from.simps)
  with Cons show ?case by simp
qed

lemma indexFunc_from_hit:
  assumes "\<forall>c\<in>set xs. rune_of c < RuneSelf \<and> f (rune_of c) \<noteq> t"
    and "rune_of y < RuneSelf" "f (rune_of y) = t"
  shows "indexFunc_from f t start (xs @ y # ys) = int (start + length xs)"
  using indexFunc_from_skip [OF assms(1), of start "y # ys"] assms(2,3)
  by (simp add: indexFunc_from_ascii del: indexFunc_from.simps)

lemma indexFunc_from_miss:
  assumes "\<forall>c\<in>set xs. rune_of c < RuneSelf \<and> f (rune_of c) \<noteq> t"
  shows "indexFunc_from f t start xs = - 1"
  using indexFunc_from_skip [OF assms, of start "[]"] by simp

lemma indexFunc_from_isCharFunc:
  assumes q: "rune_of q < RuneSelf"
  shows "indexFunc_from (isCharFunc (rune_of q)) False start s =
    (if dropWhile (\<lambda>c. c = q) s = [] then - 1
     else int (start + length (takeWhile (\<lambda>c. c = q) s)))"
proof (induction s arbitrary: start)
  case Nil
  then show ?case by simp
next
  case (Cons c s)
  show ?case
  proof (cases "c = q")
    case True
    with q Cons show ?thesis
      by (simp add: indexFunc_from_ascii isCharFunc_def del: indexFunc_from.simps)
  next
    case False
    have "fst (DecodeRune (c # s)) \<noteq> rune_of q"
    proof (cases "rune_of c < RuneSelf")
      case True
      with False show ?thesis by (simp add: DecodeRune_ascii rune_of_inj del: DecodeRune.simps)
    next
      case False
      from DecodeRune_nonascii [OF this, of s] q show ?thesis by simp
    qed
    then have "indexFunc_from (isCharFunc (rune_of q)) False start (c # s) = int start"
      by (cases "DecodeRune (c # s)") (simp add: isCharFunc_def del: DecodeRune.simps)
    with False show ?thesis by simp
  qed
qed

lemma TrimLeftFunc_isCharFunc:
  "rune_of q < RuneSelf \<Longrightarrow>
   TrimLeftFunc s (isCharFunc (rune_of q)) = dropWhile (\<lambda>c. c = q) s"
  by (simp add: TrimLeftFunc_def indexFunc_def indexFunc_from_isCharFunc Let_def dropWhile_eq_drop)

lemma TrimLeftFunc_Nil: "TrimLeftFunc [] f = []"
  by (simp add: TrimLeftFunc_def indexFunc_def)

lemma TrimLeftFunc_keep:
  "rune_of c < RuneSelf \<Longrightarrow> \<not> f (rune_of c) \<Longrightarrow> TrimLeftFunc (c # p) f = c # p"
  by (simp add: TrimLeftFunc_def indexFunc_def indexFunc_from_ascii del: indexFunc_from.simps)

lemma TrimLeftFunc_set: "set (TrimLeftFunc s f) \<subseteq> set s"
  by (auto simp: TrimLeftFunc_def Let_def dest: in_set_dropD)

lemma DecodeLastRune_snoc_ascii:
  "rune_of c < RuneSelf \<Longrightarrow> DecodeLastRune (p @ [c]) = (rune_of c, 1)"
  by (simp add: DecodeLastRune_def Let_def)

lemma lastIndexFunc_loop_snoc_ascii:
  "rune_of c < RuneSelf \<Longrightarrow>
   lastIndexFunc_loop (p @ [c]) f t =
     (if f (rune_of c) = t then int (length p) else lastIndexFunc_loop p f t)"
  by (subst lastIndexFunc_loop.simps) (simp add: DecodeLastRune_snoc_ascii)

lemma DecodeLastRune_size_le: "snd (DecodeLastRune p) \<le> length p"
proof (cases "p = []")
  case True
  then show ?thesis by (simp add: DecodeLastRune_def)
next
  case False
  then have "Suc 0 \<le> length p" by (cases p) simp_all
  then show ?thesis
    by (auto simp: DecodeLastRune_def Let_def split: prod.splits)
qed

lemma lastIndexFunc_loop_range:
  "lastIndexFunc_loop p f t = - 1 \<or>
   (0 \<le> lastIndexFunc_loop p f t \<and> lastIndexFunc_loop p f t < int (length p))"
proof (induction p f t rule: lastIndexFunc_loop.induct)
  case (1 p f truth)
  show ?case
  proof (cases "p = []")
    case True
    then show ?thesis by (subst lastIndexFunc_loop.simps) simp
  next
    case False
    obtain r sz where d: "DecodeLastRune p = (r, sz)" by (cases "DecodeLastRune p")
    have pos: "0 < sz" using DecodeLastRune_size_pos [OF False] d by simp
    show ?thesis
    proof (cases "f r = truth")
      case True
      with False d pos show ?thesis
        by (subst (1 2 3) lastIndexFunc_loop.simps) simp
    next
      case F: False
      have e: "lastIndexFunc_loop p f truth = lastIndexFunc_loop (take (length p - sz) p) f truth"
        using False d F by (subst lastIndexFunc_loop.simps) simp
      from "1.IH" [OF False refl d [symmetric] refl F]
      have "lastIndexFunc_loop (take (length p - sz) p) f truth = - 1 \<or>
        (0 \<le> lastIndexFunc_loop (take (length p - sz) p) f truth \<and>
         lastIndexFunc_loop (take (length p - sz) p) f truth < int (length (take (length p - sz) p)))"
        by simp
      then show ?thesis unfolding e by auto
    qed
  qed
qed

lemma TrimRightFunc_keep:
  "rune_of c < RuneSelf \<Longrightarrow> \<not> f (rune_of c) \<Longrightarrow> TrimRightFunc (p @ [c]) f = p @ [c]"
  by (simp add: TrimRightFunc_def lastIndexFunc_def lastIndexFunc_loop_snoc_ascii Let_def)

lemma acceptLo_ge: "RuneSelf \<le> acceptLo p0"
  by (simp add: acceptLo_def RuneSelf_def)

lemma DecodeRune_nonascii_alone:
  assumes na: "\<not> rune_of c < RuneSelf" and ys: "ys = [] \<or> rune_of (hd ys) < RuneSelf"
  shows "snd (DecodeRune (c # ys)) = 1"
proof -
  have "ys \<noteq> [] \<Longrightarrow> \<not> acceptLo (rune_of c) \<le> rune_of (ys ! 0)"
    using ys acceptLo_ge [of "rune_of c"] by (cases ys) auto
  moreover have "1 \<le> length ys \<Longrightarrow> ys \<noteq> []" by auto
  ultimately show ?thesis using DecodeRune_shape [OF na, of ys] by auto
qed

lemma DecodeRune_append:
  assumes sz: "snd (DecodeRune (c # p)) = Suc (length p)"
    and ys: "ys = [] \<or> rune_of (hd ys) < RuneSelf"
  shows "snd (DecodeRune (c # p @ ys)) = Suc (length p)"
proof (cases "rune_of c < RuneSelf")
  case True
  with sz have "p = []" by (simp add: DecodeRune_ascii del: DecodeRune.simps)
  with True show ?thesis by (simp add: DecodeRune_ascii del: DecodeRune.simps)
next
  case na: False
  show ?thesis
  proof (cases "p = []")
    case True
    with DecodeRune_nonascii_alone [OF na ys] show ?thesis by simp
  next
    case False
    from DecodeRune_shape [OF na, of p] sz False
    consider (two) "runeSize (rune_of c) = 2" "length p = 1"
      | (three) "runeSize (rune_of c) = 3" "length p = 2"
      | (four) "runeSize (rune_of c) = 4" "length p = 3"
      by (cases p) auto
    then have "DecodeRune (c # p @ ys) = DecodeRune (c # p)"
    proof cases
      case two
      then show ?thesis
        unfolding DecodeRune_unfold [OF na] by (simp add: nth_append)
    next
      case three
      then show ?thesis
        unfolding DecodeRune_unfold [OF na] by (simp add: nth_append)
    next
      case four
      then show ?thesis
        unfolding DecodeRune_unfold [OF na] by (simp add: nth_append)
    qed
    with sz show ?thesis by simp
  qed
qed

lemma DecodeLastRune_nonascii:
  assumes ne: "p \<noteq> []" and na: "\<not> rune_of (last p) < RuneSelf"
  obtains r sz where "DecodeLastRune p = (r, sz)" "RuneSelf \<le> r" "0 < sz" "sz \<le> length p"
    "\<not> rune_of (p ! (length p - sz)) < RuneSelf"
    "\<And>ys. ys = [] \<or> rune_of (hd ys) < RuneSelf \<Longrightarrow>
       snd (DecodeRune (drop (length p - sz) p @ ys)) = sz"
proof -
  define start where
    "start = nat (max 0 (backToRuneStart p (max 0 (int (length p) - int UTFMax)) (int (length p) - 2)))"
  have lp: "0 < length p" using ne by simp
  have lastp: "p ! (length p - 1) = last p" using ne by (simp add: last_conv_nth)
  have st: "start < length p"
    using lp backToRuneStart_le [of p "max 0 (int (length p) - int UTFMax)" "int (length p) - 2"]
    unfolding start_def by linarith
  have st2: "2 \<le> length p \<Longrightarrow> start + 2 \<le> length p"
    using backToRuneStart_le [of p "max 0 (int (length p) - int UTFMax)" "int (length p) - 2"]
    unfolding start_def by linarith
  obtain r' sz' where d: "DecodeRune (drop start p) = (r', sz')" by (cases "DecodeRune (drop start p)")
  have D: "DecodeLastRune p = (if start + sz' \<noteq> length p then (RuneError, 1) else (r', sz'))"
    using ne na lastp d unfolding DecodeLastRune_def start_def [symmetric] Let_def
    by (simp add: RuneSelf_def)
  show ?thesis
  proof (cases "start + sz' \<noteq> length p")
    case True
    have l: "drop (length p - 1) p = [last p]"
      using ne by (metis append_butlast_last_id append_eq_conv_conj length_butlast)
    show ?thesis
    proof (rule that [of RuneError 1])
      show "DecodeLastRune p = (RuneError, 1)" using D True by simp
      show "RuneSelf \<le> RuneError" by (simp add: RuneSelf_def RuneError_def)
      show "0 < (1::nat)" by simp
      show "1 \<le> length p" using lp by linarith
      show "\<not> rune_of (p ! (length p - 1)) < RuneSelf" using na lastp by simp
      show "snd (DecodeRune (drop (length p - 1) p @ ys)) = 1"
        if "ys = [] \<or> rune_of (hd ys) < RuneSelf" for ys
        using DecodeRune_nonascii_alone [OF na that] l by simp
    qed
  next
    case False
    then have eq: "start + sz' = length p" by simp
    obtain c' q where cq: "drop start p = c' # q" using st by (cases "drop start p") auto
    have lq: "length p - start = Suc (length q)"
      using cq by (metis length_drop length_Cons)
    have c': "p ! start = c'" using cq st by (metis nth_via_drop)
    have nac: "\<not> rune_of c' < RuneSelf"
    proof
      assume a: "rune_of c' < RuneSelf"
      with d cq have "sz' = 1" by (simp add: DecodeRune_ascii del: DecodeRune.simps)
      with eq have s1: "start = length p - 1" by simp
      with c' lastp have "c' = last p" by simp
      with a na show False by simp
    qed
    have szq: "sz' = Suc (length q)" using eq lq by simp
    have ls: "length p - sz' = start" using eq by simp
    show ?thesis
    proof (rule that [of r' sz'])
      show "DecodeLastRune p = (r', sz')" using D False by simp
      show "RuneSelf \<le> r'" using DecodeRune_nonascii [OF nac, of q] d cq by simp
      show "0 < sz'" using szq by simp
      show "sz' \<le> length p" using eq by simp
      show "\<not> rune_of (p ! (length p - sz')) < RuneSelf" unfolding ls c' by (rule nac)
      show "snd (DecodeRune (drop (length p - sz') p @ ys)) = sz'"
        if "ys = [] \<or> rune_of (hd ys) < RuneSelf" for ys
      proof -
        have "snd (DecodeRune (c' # q)) = Suc (length q)" using d cq szq by simp
        from DecodeRune_append [OF this that]
        have "snd (DecodeRune (c' # q @ ys)) = Suc (length q)" .
        moreover have "drop (length p - sz') p @ ys = c' # q @ ys" unfolding ls cq by simp
        ultimately show ?thesis unfolding szq by (simp only:)
      qed
    qed
  qed
qed

lemma takeWhile_eq_replicate:
  "takeWhile (\<lambda>c. c = q) xs = replicate (length (takeWhile (\<lambda>c. c = q) xs)) q"
  by (induction xs) auto

lemma lastIndexFunc_loop_isCharFunc_replicate:
  assumes q: "rune_of q < RuneSelf"
  shows "lastIndexFunc_loop (u @ replicate n q) (isCharFunc (rune_of q)) False
    = lastIndexFunc_loop u (isCharFunc (rune_of q)) False"
proof (induction n)
  case 0
  then show ?case by simp
next
  case (Suc n)
  define f where "f = isCharFunc (rune_of q)"
  have fq: "f (rune_of q) \<noteq> False" by (simp add: f_def isCharFunc_def)
  have e: "u @ replicate (Suc n) q = (u @ replicate n q) @ [q]"
    by (simp add: replicate_append_same)
  have "lastIndexFunc_loop ((u @ replicate n q) @ [q]) f False
      = lastIndexFunc_loop (u @ replicate n q) f False"
    using lastIndexFunc_loop_snoc_ascii [OF q, of "u @ replicate n q" f False] fq by simp
  with Suc show ?case unfolding e f_def by simp
qed

lemma TrimRightFunc_isCharFunc_strip:
  assumes q: "rune_of q < RuneSelf" and u: "u = [] \<or> last u \<noteq> q"
  shows "TrimRightFunc (u @ replicate n q) (isCharFunc (rune_of q)) = u"
proof (cases "u = []")
  case True
  have "lastIndexFunc_loop [] (isCharFunc (rune_of q)) False = - 1"
    by (subst lastIndexFunc_loop.simps) simp
  with lastIndexFunc_loop_isCharFunc_replicate [OF q, of "[]" n]
  have "lastIndexFunc (replicate n q) (isCharFunc (rune_of q)) False = - 1"
    by (simp add: lastIndexFunc_def)
  with True show ?thesis
    by (simp add: TrimRightFunc_def Let_def)
next
  case ne: False
  with u have lu: "last u \<noteq> q" by simp
  define s where "s = u @ replicate n q"
  have ys: "replicate n q = [] \<or> rune_of (hd (replicate n q)) < RuneSelf"
    using q by (cases n) auto
  show ?thesis
  proof (cases "rune_of (last u) < RuneSelf")
    case True
    define j where "j = length (butlast u)"
    have sj: "Suc j = length u" using ne by (cases u rule: rev_cases) (simp_all add: j_def)
    have "u = butlast u @ [last u]" using ne by simp
    then have "lastIndexFunc_loop u (isCharFunc (rune_of q)) False = int j"
      using lastIndexFunc_loop_snoc_ascii [OF True, of "butlast u" "isCharFunc (rune_of q)" False] lu
      by (simp add: isCharFunc_def rune_of_inj j_def)
    then have i: "lastIndexFunc s (isCharFunc (rune_of q)) False = int j"
      by (simp add: lastIndexFunc_def s_def lastIndexFunc_loop_isCharFunc_replicate [OF q])
    have "s ! j = last u"
      using ne sj by (simp add: s_def nth_append last_conv_nth j_def)
    then have "TrimRightFunc s (isCharFunc (rune_of q)) = take (Suc j) s"
      using True unfolding TrimRightFunc_def Let_def i by (simp add: not_le nat_add_distrib)
    then show ?thesis unfolding sj by (simp add: s_def)
  next
    case False
    from DecodeLastRune_nonascii [OF ne False]
    obtain r sz where d: "DecodeLastRune u = (r, sz)" and r: "RuneSelf \<le> r" and sz: "0 < sz" "sz \<le> length u"
      and na: "\<not> rune_of (u ! (length u - sz)) < RuneSelf"
      and w: "\<And>ys. ys = [] \<or> rune_of (hd ys) < RuneSelf \<Longrightarrow>
         snd (DecodeRune (drop (length u - sz) u @ ys)) = sz"
      by blast
    have "lastIndexFunc_loop u (isCharFunc (rune_of q)) False = int (length u - sz)"
      using ne d r q by (subst lastIndexFunc_loop.simps) (simp add: isCharFunc_def)
    then have i: "lastIndexFunc s (isCharFunc (rune_of q)) False = int (length u - sz)"
      by (simp add: lastIndexFunc_def s_def lastIndexFunc_loop_isCharFunc_replicate [OF q])
    have lt: "length u - sz < length u" using sz ne by (cases u) auto
    have n: "s ! (length u - sz) = u ! (length u - sz)"
      using lt by (simp add: s_def nth_append)
    have dr: "drop (length u - sz) s = drop (length u - sz) u @ replicate n q"
      using sz by (simp add: s_def)
    have "TrimRightFunc s (isCharFunc (rune_of q)) = take (length u - sz + sz) s"
      unfolding TrimRightFunc_def Let_def i using na n w [OF ys] dr
      by (simp add: not_less del: DecodeRune.simps)
    with sz show ?thesis by (simp add: s_def)
  qed
qed

lemma TrimRightFunc_isCharFunc:
  assumes q: "rune_of q < RuneSelf"
  shows "TrimRightFunc s (isCharFunc (rune_of q)) = rev (dropWhile (\<lambda>c. c = q) (rev s))"
proof -
  define u where "u = rev (dropWhile (\<lambda>c. c = q) (rev s))"
  define n where "n = length (takeWhile (\<lambda>c. c = q) (rev s))"
  have "rev s = takeWhile (\<lambda>c. c = q) (rev s) @ dropWhile (\<lambda>c. c = q) (rev s)" by simp
  then have "rev s = replicate n q @ rev u"
    using takeWhile_eq_replicate [of q "rev s"] by (simp add: n_def u_def)
  then have "rev (rev s) = rev (replicate n q @ rev u)" by simp
  then have s: "s = u @ replicate n q" by simp
  have "u = [] \<or> last u \<noteq> q"
  proof (cases "dropWhile (\<lambda>c. c = q) (rev s)")
    case Nil
    then show ?thesis by (simp add: u_def)
  next
    case (Cons a as)
    then have "a \<noteq> q" using hd_dropWhile [of "\<lambda>c. c = q" "rev s"] by simp
    with Cons show ?thesis by (simp add: u_def)
  qed
  from TrimRightFunc_isCharFunc_strip [OF q this, of n]
  have "TrimRightFunc s (isCharFunc (rune_of q)) = u" using s by simp
  then show ?thesis by (simp add: u_def)
qed

section \<open>Properties of the parser\<close>

definition keyChar :: "char \<Rightarrow> bool" where
  \<comment> \<open>the class \<^verbatim>\<open>[A-Za-z0-9_.]\<close>\<close>
  "keyChar c =
     (let r = rune_of c in
      (0x41 \<le> r \<and> r \<le> 0x5A) \<or> (0x61 \<le> r \<and> r \<le> 0x7A) \<or> (0x30 \<le> r \<and> r \<le> 0x39)
      \<or> r = 0x5F \<or> r = 0x2E)"

definition plainText :: "bytes \<Rightarrow> bool" where
  \<comment> \<open>text of an unquoted value that the scanner takes as it stands: ASCII, on one line,
      with no \<^verbatim>\<open>#\<close>, no blank at either end and no quote at the start\<close>
  "plainText raw =
     (list_all (\<lambda>c. rune_of c < RuneSelf \<and> c \<noteq> CHR 0x0A \<and> c \<noteq> CHR 0x0D \<and> c \<noteq> CHR ''#'') raw \<and>
      (raw \<noteq> [] \<longrightarrow>
         \<not> isSpace (rune_of (hd raw)) \<and> \<not> isSpace (rune_of (last raw)) \<and>
         hd raw \<noteq> prefixSingleQuote \<and> hd raw \<noteq> prefixDoubleQuote))"

definition lineBreakOrEnd :: "bytes \<Rightarrow> bool" where
  \<comment> \<open>what follows a value on its line: the end of the buffer, or a newline\<close>
  "lineBreakOrEnd rest = (case rest of [] \<Rightarrow> True | c # _ \<Rightarrow> c = CHR 0x0A)"

lemma keyChar_ascii: "keyChar c \<Longrightarrow> rune_of c < RuneSelf"
  by (auto simp: keyChar_def RuneSelf_def Let_def)

lemma keyChar_not_space: "keyChar c \<Longrightarrow> \<not> isSpace (rune_of c)"
  by (auto simp: keyChar_def isSpace_def Let_def)

lemma keyChar_not_IsSpace: "keyChar c \<Longrightarrow> \<not> unicode_IsSpace (rune_of c)"
  by (auto simp: keyChar_def unicode_IsSpace_def Let_def)

lemma keyChar_not_special:
  "keyChar c \<Longrightarrow> c \<noteq> CHR ''#'' \<and> c \<noteq> CHR ''='' \<and> c \<noteq> CHR '':'' \<and> c \<noteq> CHR 0x0A"
  by (auto simp: keyChar_def rune_of_def Let_def)

lemma keyChar_accepted:
  "keyChar c \<Longrightarrow>
   c = CHR ''_'' \<or> unicode_IsLetter (rune_of c) \<or> unicode_IsNumber (rune_of c) \<or> rune_of c = 0x2E"
proof -
  assume k: "keyChar c"
  have "rune_of c = 0x5F \<Longrightarrow> c = CHR ''_''"
    using rune_of_inj [of c "CHR ''_''"] by (simp add: rune_of_def)
  with k show ?thesis
    by (auto simp: keyChar_def unicode_IsLetter_def unicode_IsNumber_def Let_def)
qed

lemma runes_of_ascii:
  "list_all (\<lambda>c. rune_of c < RuneSelf) s \<Longrightarrow> runes_of s = map rune_of s"
  by (induction s) (simp_all add: DecodeRune_ascii del: DecodeRune.simps)

lemma EncodeRune_ascii: "rune_of c < RuneSelf \<Longrightarrow> EncodeRune (rune_of c) = [c]"
  by (simp add: EncodeRune_def RuneSelf_def Let_def rune_of_def)

lemma string_of_ascii:
  "list_all (\<lambda>c. rune_of c < RuneSelf) s \<Longrightarrow> string_of (map rune_of s) = s"
  by (induction s) (simp_all add: string_of_def EncodeRune_ascii)

lemma findEndOfVar_loop_none:
  "\<forall>i<n. line ! i \<noteq> rune_of charComment \<Longrightarrow> findEndOfVar_loop line n = length line"
  by (induction n) simp_all

lemma findEndOfVar_none:
  "rune_of charComment \<notin> set line \<Longrightarrow> findEndOfVar line = length line"
  unfolding findEndOfVar_def by (rule findEndOfVar_loop_none) (metis nth_mem)

lemma findEndOfLine_nonneg: "findEndOfLine src \<noteq> - 1"
  using indexFunc_range [of src isLineEnd True]
  by (auto simp: findEndOfLine_def IndexFunc_def Let_def)

lemma isLineEnd_rune_of: "isLineEnd (rune_of c) = (c = CHR 0x0A \<or> c = CHR 0x0D)"
proof -
  have "rune_of (CHR 0x0A) = 10" "rune_of (CHR 0x0D) = 13" by (simp_all add: rune_of_def)
  then have "(rune_of c = 10) = (c = CHR 0x0A)" "(rune_of c = 13) = (c = CHR 0x0D)"
    using rune_of_inj [of c "CHR 0x0A"] rune_of_inj [of c "CHR 0x0D"] by simp_all
  then show ?thesis by (simp add: isLineEnd_def)
qed

lemma findEndOfLine_plain:
  assumes "list_all (\<lambda>c. rune_of c < RuneSelf \<and> c \<noteq> CHR 0x0A \<and> c \<noteq> CHR 0x0D) raw"
    and "lineBreakOrEnd rest"
  shows "findEndOfLine (raw @ rest) = int (length raw)"
proof -
  have a: "\<forall>c\<in>set raw. rune_of c < RuneSelf \<and> isLineEnd (rune_of c) \<noteq> True"
    using assms(1) by (simp add: list_all_iff isLineEnd_rune_of)
  show ?thesis
  proof (cases rest)
    case Nil
    with indexFunc_from_miss [OF a, of 0] show ?thesis
      by (simp add: findEndOfLine_def IndexFunc_def indexFunc_def)
  next
    case (Cons c cs)
    with assms(2) have c: "c = CHR 0x0A" by (simp add: lineBreakOrEnd_def)
    have "rune_of c < RuneSelf" "isLineEnd (rune_of c) = True"
      unfolding c by (simp_all add: isLineEnd_rune_of) (simp add: rune_of_def RuneSelf_def)
    from indexFunc_from_hit [OF a this, of 0 cs] Cons show ?thesis
      by (simp add: findEndOfLine_def IndexFunc_def indexFunc_def)
  qed
qed

lemma TrimFunc_plain:
  assumes "raw \<noteq> [] \<longrightarrow> rune_of (hd raw) < RuneSelf \<and> rune_of (last raw) < RuneSelf \<and>
      \<not> f (rune_of (hd raw)) \<and> \<not> f (rune_of (last raw))"
  shows "TrimFunc raw f = raw"
proof (cases raw)
  case Nil
  then show ?thesis by (simp add: TrimFunc_def TrimLeftFunc_Nil TrimRightFunc_Nil)
next
  case (Cons c cs)
  with assms have l: "TrimLeftFunc raw f = raw" by (simp add: TrimLeftFunc_keep)
  have "raw = butlast raw @ [last raw]" using Cons by simp
  then have "TrimRightFunc raw f = raw"
    using TrimRightFunc_keep [of "last raw" f "butlast raw"] assms Cons by simp
  with l show ?thesis by (simp add: TrimFunc_def)
qed

lemma indexFunc_from_shift:
  "indexFunc_from f t (Suc start) p =
     (if indexFunc_from f t start p = - 1 then - 1 else indexFunc_from f t start p + 1)"
proof (induction f t start p rule: indexFunc_from.induct)
  case (1 f truth start)
  then show ?case by simp
next
  case (2 f truth start c p)
  obtain r wid where d: "DecodeRune (c # p) = (r, wid)" by (cases "DecodeRune (c # p)")
  show ?case
  proof (cases "f r = truth")
    case True
    with d show ?thesis by (simp del: DecodeRune.simps)
  next
    case False
    from "2.IH" [OF d [symmetric] refl False] d False show ?thesis
      by (simp del: DecodeRune.simps)
  qed
qed

lemma indexFunc_from_nonzero:
  assumes "rune_of c < RuneSelf" "f (rune_of c) \<noteq> t"
  shows "indexFunc_from f t 0 (c # p) \<noteq> 0"
proof -
  have "indexFunc_from f t 0 (c # p) = indexFunc_from f t (Suc 0) p"
    using assms by (simp add: indexFunc_from_ascii del: indexFunc_from.simps)
  moreover have "indexFunc_from f t (Suc 0) p = - 1 \<or> int (Suc 0) \<le> indexFunc_from f t (Suc 0) p"
    using indexFunc_from_range [of f t "Suc 0" p] by blast
  ultimately show ?thesis by auto
qed

lemma getStatementStart_here:
  assumes "rune_of c < RuneSelf" "\<not> unicode_IsSpace (rune_of c)" "c \<noteq> charComment"
  shows "getStatementStart (c # p) = Some (c # p)"
proof -
  have "indexOfNonSpaceChar (c # p) = 0"
    using assms(1,2)
    by (simp add: indexOfNonSpaceChar_def IndexFunc_def indexFunc_def indexFunc_from_ascii
        del: indexFunc_from.simps)
  then show ?thesis using assms(3) by (subst getStatementStart.simps) simp
qed

lemma getStatementStart_newline:
  "getStatementStart (CHR 0x0A # p) = getStatementStart p"
proof -
  have n: "rune_of (CHR 0x0A) < RuneSelf" "unicode_IsSpace (rune_of (CHR 0x0A))"
    by (simp_all add: rune_of_def RuneSelf_def unicode_IsSpace_def)
  have i: "indexOfNonSpaceChar (CHR 0x0A # p) =
      (if indexOfNonSpaceChar p = - 1 then - 1 else indexOfNonSpaceChar p + 1)"
    using n indexFunc_from_shift [of "\<lambda>r. \<not> unicode_IsSpace r" True 0 p]
    by (simp add: indexOfNonSpaceChar_def IndexFunc_def indexFunc_def indexFunc_from_ascii
        del: indexFunc_from.simps)
  show ?thesis
  proof (cases "indexOfNonSpaceChar p = - 1")
    case True
    have "getStatementStart (CHR 0x0A # p) = None"
      using i True by (subst getStatementStart.simps) simp
    moreover have "getStatementStart p = None"
      using True by (subst getStatementStart.simps) simp
    ultimately show ?thesis by simp
  next
    case False
    define k where "k = indexOfNonSpaceChar p"
    have k: "0 \<le> k" "k \<noteq> - 1" "k + 1 \<noteq> - 1"
      using False indexFunc_range [of p "\<lambda>r. \<not> unicode_IsSpace r" True]
      by (simp_all add: indexOfNonSpaceChar_def IndexFunc_def k_def)
    have d: "drop (nat (k + 1)) (CHR 0x0A # p) = drop (nat k) p"
      using k(1) by (simp add: nat_add_distrib)
    define E where "E = (let src' = drop (nat k) p in
        if src' ! 0 \<noteq> charComment then Some src'
        else
          let pos' = IndexFunc src' (isCharFunc 0x0A) in
          if pos' = - 1 then None else getStatementStart (drop (nat pos') src'))"
    have "indexOfNonSpaceChar (CHR 0x0A # p) = k + 1" using i False by (simp add: k_def)
    then have "getStatementStart (CHR 0x0A # p) = E"
      by (subst getStatementStart.simps) (simp only: Let_def k(3) if_False d E_def)
    moreover have "getStatementStart p = E"
      by (subst getStatementStart.simps) (simp only: Let_def k_def [symmetric] k(2) if_False E_def)
    ultimately show ?thesis by simp
  qed
qed

lemma getStatementStart_Nil: "getStatementStart [] = None"
  by (subst getStatementStart.simps)
     (simp add: indexOfNonSpaceChar_def IndexFunc_def indexFunc_def)

lemma keyLoop_key:
  assumes "list_all keyChar key"
  shows "keyLoop src i (key @ CHR ''='' # rest) = Inr (take (i + length key) src, i + length key + 1)"
  using assms
proof (induction key arbitrary: i)
  case Nil
  then show ?case by (simp add: Let_def isSpace_def rune_of_def)
next
  case (Cons c key)
  then have k: "keyChar c" by simp
  have "keyLoop src i ((c # key) @ CHR ''='' # rest) = keyLoop src (i + 1) (key @ CHR ''='' # rest)"
    using keyChar_not_space [OF k] keyChar_not_special [OF k] keyChar_accepted [OF k]
    by (auto simp: Let_def)
  with Cons show ?case by simp
qed

lemma trimExport_key:
  assumes "list_all keyChar key" "key \<noteq> []"
  shows "trimExport (key @ CHR ''='' # rest) = key @ CHR ''='' # rest"
proof -
  define src where "src = key @ CHR ''='' # rest"
  obtain c cs where key: "key = c # cs" using assms(2) by (cases key) auto
  with assms(1) have c: "keyChar c" by simp
  have t: "TrimLeftFunc src isSpace = src"
    unfolding src_def key using keyChar_ascii [OF c] keyChar_not_space [OF c]
    by (simp add: TrimLeftFunc_keep)
  have "IndexFunc (TrimPrefix src exportPrefix) isSpace \<noteq> 0" if h: "HasPrefix src exportPrefix"
  proof -
    have l: "6 \<le> length key"
    proof (rule ccontr)
      assume "\<not> 6 \<le> length key"
      then have lt: "length key < 6" by simp
      have six: "length ''export'' = 6" by simp
      from h have "take (length ''export'') src = ''export''"
        by (simp only: HasPrefix_def exportPrefix_def)
      then have e: "take 6 src = ''export''" unfolding six .
      have "CHR ''='' \<in> set (take 6 (key @ CHR ''='' # rest))"
        using lt by (auto simp: set_conv_nth nth_append intro!: exI [of _ "length key"])
      with e show False by (simp add: src_def)
    qed
    define d where "d = drop 6 key @ CHR ''='' # rest"
    have six: "length ''export'' = 6" by simp
    have "TrimPrefix src exportPrefix = drop 6 src"
      using h unfolding TrimPrefix_def exportPrefix_def six by (simp only: if_True)
    then have tp: "TrimPrefix src exportPrefix = d"
      using l by (simp add: src_def d_def)
    obtain e es where d: "d = e # es" unfolding d_def by (cases "drop 6 key") auto
    have "e = CHR ''='' \<or> keyChar e"
    proof (cases "drop 6 key")
      case Nil
      with d show ?thesis by (simp add: d_def)
    next
      case (Cons a as)
      then have "a \<in> set key" by (metis in_set_dropD list.set_intros(1))
      with assms(1) have "keyChar a" by (simp add: list_all_iff)
      with d Cons show ?thesis by (simp add: d_def)
    qed
    then have "rune_of e < RuneSelf \<and> \<not> isSpace (rune_of e)"
      using keyChar_ascii [of e] keyChar_not_space [of e]
      by (auto simp: rune_of_def RuneSelf_def isSpace_def)
    then show ?thesis unfolding tp d IndexFunc_def indexFunc_def
      using indexFunc_from_nonzero [of e isSpace True es] by simp
  qed
  with t show ?thesis unfolding trimExport_def src_def [symmetric] Let_def by simp
qed

lemma locateKeyName_key:
  assumes "list_all keyChar key" "key \<noteq> []"
  shows "locateKeyName (key @ CHR ''='' # rest) = Inr (key, TrimLeftFunc rest isSpace)"
proof -
  have l: "last key \<in> set key" using assms(2) by simp
  with assms(1) have k: "keyChar (last key)" by (simp add: list_all_iff)
  have "key = butlast key @ [last key]" using assms(2) by simp
  then have tr: "TrimRightFunc key unicode_IsSpace = key"
    using TrimRightFunc_keep [of "last key" unicode_IsSpace "butlast key",
        OF keyChar_ascii [OF k] keyChar_not_IsSpace [OF k]]
    by simp
  show ?thesis
    unfolding locateKeyName_def trimExport_key [OF assms] Let_def
    using keyLoop_key [OF assms(1), of "key @ CHR ''='' # rest" 0 rest] tr
    by simp
qed

lemma expandVarRegex_at_no_dollar:
  "CHR ''$'' \<notin> set s \<Longrightarrow> expandVarRegex_at s = None"
proof (cases s)
  case Nil
  then show ?thesis by (simp add: expandVarRegex_at_def)
next
  case (Cons c t)
  assume "CHR ''$'' \<notin> set s"
  with Cons show ?thesis
    by (cases t) (auto simp: expandVarRegex_at_def)
qed

lemma expandVariables_no_dollar:
  "CHR ''$'' \<notin> set s \<Longrightarrow> expandVariables s m = s"
  unfolding expandVariables_def
  by (induction s) (simp_all add: expandVarRegex_at_no_dollar)

lemma isVarChar_not_special:
  "isVarChar c \<Longrightarrow> c \<noteq> CHR ''}'' \<and> c \<noteq> CHR ''{'' \<and> c \<noteq> CHR ''('' \<and> c \<noteq> CHR ''$''"
  by (auto simp: isVarChar_def rune_of_def Let_def)

lemma expandVarRegex_at_name:
  assumes "list_all isVarChar name" "name \<noteq> []"
  shows "expandVarRegex_at (CHR ''$'' # name) = Some ([CHR ''$'' # name, [], ''$'', [], name], [])"
    and "expandVarRegex_at (''${'' @ name @ ''}'')
      = Some ([''${'' @ name @ ''}'', [], ''$'', [], name], [])"
proof -
  obtain c cs where n: "name = c # cs" using assms(2) by (cases name) auto
  with assms(1) have c: "isVarChar c" by simp
  have tw: "takeWhile isVarChar name = name" "dropWhile isVarChar name = []"
    using assms(1) by (simp_all add: list_all_iff)
  have "\<not> isVarChar (CHR ''}'')" by (simp add: isVarChar_def rune_of_def)
  then have tw2: "takeWhile isVarChar (name @ ''}'') = name"
    "dropWhile isVarChar (name @ ''}'') = ''}''"
    using assms(1) by (simp_all add: list_all_iff takeWhile_tail dropWhile_append3)
  have o1: "\<And>t. optChar (CHR 0x5C) (CHR ''$'' # t) = ([], CHR ''$'' # t)" by simp
  have o2: "optChar (CHR ''('') name = ([], name)" "optChar (CHR ''{'') name = ([], name)"
    using isVarChar_not_special [OF c] by (simp_all add: n)
  have o3: "optChar (CHR ''('') (CHR ''{'' # name @ ''}'') = ([], CHR ''{'' # name @ ''}'')"
    "optChar (CHR ''{'') (CHR ''{'' # name @ ''}'') = (''{'', name @ ''}'')"
    "optChar (CHR ''}'') ''}'' = (''}'', [])" "optChar (CHR ''}'') [] = ([], [])"
    by simp_all
  show "expandVarRegex_at (CHR ''$'' # name) = Some ([CHR ''$'' # name, [], ''$'', [], name], [])"
    unfolding expandVarRegex_at_def o1
    by (simp add: o2 o3 tw del: optChar.simps takeWhile.simps dropWhile.simps)
  have "expandVarRegex_at (CHR ''$'' # CHR ''{'' # name @ ''}'')
      = Some ([CHR ''$'' # CHR ''{'' # name @ ''}'', [], ''$'', [], name], [])"
    unfolding expandVarRegex_at_def o1
    by (simp add: o3 tw2 del: optChar.simps takeWhile.simps dropWhile.simps)
  then show "expandVarRegex_at (''${'' @ name @ ''}'')
      = Some ([''${'' @ name @ ''}'', [], ''$'', [], name], [])"
    by simp
qed

lemma expandVariables_name:
  assumes "list_all isVarChar name" "name \<noteq> []"
  shows "expandVariables (CHR ''$'' # name) m = lookup m name"
    and "expandVariables (''${'' @ name @ ''}'') m = lookup m name"
proof -
  show "expandVariables (CHR ''$'' # name) m = lookup m name"
    using expandVarRegex_at_name(1) [OF assms] assms(2)
    by (simp add: expandVariables_def expandVar_def)
  have "expandVarRegex_at (CHR ''$'' # CHR ''{'' # name @ ''}'')
      = Some ([''${'' @ name @ ''}'', [], ''$'', [], name], [])"
    using expandVarRegex_at_name(2) [OF assms] by simp
  then show "expandVariables (''${'' @ name @ ''}'') m = lookup m name"
    using assms(2) by (simp add: expandVariables_def expandVar_def)
qed

lemma plainText_ascii: "plainText raw \<Longrightarrow> list_all (\<lambda>c. rune_of c < RuneSelf) raw"
  by (simp add: plainText_def list_all_iff)

lemma extractUnquotedValue_plain:
  assumes p: "plainText raw" and r: "lineBreakOrEnd rest"
  shows "extractUnquotedValue (raw @ rest) vars = Inr (expandVariables raw vars, [], rest)"
proof -
  have asc: "list_all (\<lambda>c. rune_of c < RuneSelf) raw" using p by (rule plainText_ascii)
  have eol: "findEndOfLine (raw @ rest) = int (length raw)"
    using p r by (intro findEndOfLine_plain) (simp_all add: plainText_def list_all_iff)
  have line: "runes_of (slice (raw @ rest) 0 (length raw)) = map rune_of raw"
    using asc by (simp add: slice_def runes_of_ascii)
  have "CHR ''#'' \<notin> set raw" using p by (auto simp: plainText_def list_all_iff)
  then have nohash: "rune_of charComment \<notin> set (map rune_of raw)"
    by (auto simp: charComment_def rune_of_inj)
  have eov: "findEndOfVar (map rune_of raw) = length raw"
    using findEndOfVar_none [OF nohash] by simp
  have hp: "\<not> HasPrefix raw ''#''"
    using \<open>CHR ''#'' \<notin> set raw\<close> by (cases raw) (auto simp: HasPrefix_def)
  have tf: "TrimFunc raw isSpace = raw"
    using p asc by (intro TrimFunc_plain) (auto simp: plainText_def list_all_iff)
  show ?thesis
    unfolding extractUnquotedValue_def eol Let_def
    by (simp add: slice_def runes_of_ascii [OF asc] eov string_of_ascii [OF asc] hp tf)
qed

lemma extractVarValue_plain:
  assumes p: "plainText raw" and r: "lineBreakOrEnd rest"
  shows "extractVarValue (raw @ rest) vars = Inr (expandVariables raw vars, [], rest)"
proof -
  have "snd (hasQuotePrefix (raw @ rest)) = False"
  proof (cases raw)
    case Nil
    with r show ?thesis
      by (cases rest) (auto simp: hasQuotePrefix_def lineBreakOrEnd_def prefixDoubleQuote_def
          prefixSingleQuote_def)
  next
    case (Cons c cs)
    with p show ?thesis by (simp add: hasQuotePrefix_def plainText_def)
  qed
  then show ?thesis
    using extractUnquotedValue_plain [OF p r, of vars]
    by (cases "hasQuotePrefix (raw @ rest)") (simp add: extractVarValue_def)
qed

lemma TrimLeftFunc_plain:
  assumes p: "plainText raw" and r: "lineBreakOrEnd rest"
  shows "TrimLeftFunc (raw @ rest) isSpace = raw @ rest"
proof (cases raw)
  case Nil
  show ?thesis
  proof (cases rest)
    case Nil
    with \<open>raw = []\<close> show ?thesis by (simp add: TrimLeftFunc_Nil)
  next
    case (Cons c cs)
    with r have "c = CHR 0x0A" by (simp add: lineBreakOrEnd_def)
    then have "rune_of c < RuneSelf" "\<not> isSpace (rune_of c)"
      by (simp_all add: rune_of_def RuneSelf_def isSpace_def)
    with Cons \<open>raw = []\<close> show ?thesis by (simp add: TrimLeftFunc_keep)
  qed
next
  case (Cons c cs)
  with p have "rune_of c < RuneSelf" "\<not> isSpace (rune_of c)"
    by (simp_all add: plainText_def)
  with Cons show ?thesis by (simp add: TrimLeftFunc_keep)
qed

lemma parseLoop_newline:
  "parseLoop (CHR 0x0A # p) out comments = parseLoop p out comments"
  by (subst (1 2) parseLoop.simps) (simp only: getStatementStart_newline)

lemma parseLoop_Nil: "parseLoop [] out comments = (None, out, comments)"
  by (subst parseLoop.simps) (simp add: getStatementStart_Nil)

lemma parseLoop_unquoted:
  assumes k: "list_all keyChar key" "key \<noteq> []" and p: "plainText raw" and r: "lineBreakOrEnd rest"
  shows "parseLoop (key @ CHR ''='' # raw @ rest) out comments
    = parseLoop rest (out(key \<mapsto> expandVariables raw out)) comments"
proof -
  obtain c cs where key: "key = c # cs" using k(2) by (cases key) auto
  with k(1) have c: "keyChar c" by simp
  have g: "getStatementStart (key @ CHR ''='' # raw @ rest) = Some (key @ CHR ''='' # raw @ rest)"
    unfolding key using keyChar_ascii [OF c] keyChar_not_IsSpace [OF c] keyChar_not_special [OF c]
    by (simp add: getStatementStart_here charComment_def)
  have l: "locateKeyName (key @ CHR ''='' # raw @ rest) = Inr (key, raw @ rest)"
    using locateKeyName_key [OF k, of "raw @ rest"] TrimLeftFunc_plain [OF p r] by simp
  have cm: "(case comments of None \<Rightarrow> None
      | Some cm \<Rightarrow> if 0 < length ([] :: bytes) then Some (cm(key \<mapsto> [])) else Some cm) = comments"
    by (cases comments) simp_all
  show ?thesis
    by (subst parseLoop.simps) (simp add: g l k(2) extractVarValue_plain [OF p r] cm)
qed

definition keyByte :: "char \<Rightarrow> bool" where
  \<comment> \<open>a byte that the scan of \<^verbatim>\<open>locateKeyName\<close> steps over: a blank, an underscore, a dot, or
      a byte that is a letter or a number as a Latin-1 code point\<close>
  "keyByte c =
     (isSpace (rune_of c) \<or> c = CHR ''_'' \<or> unicode_IsLetter (rune_of c)
      \<or> unicode_IsNumber (rune_of c) \<or> rune_of c = 0x2E)"

lemma keyByte_not_delimiter: "keyByte c \<Longrightarrow> c \<noteq> CHR ''='' \<and> c \<noteq> CHR '':''"
  by (auto simp: keyByte_def isSpace_def unicode_IsLetter_def unicode_IsNumber_def rune_of_def)

lemma keyLoop_no_delimiter:
  "list_all keyByte s \<Longrightarrow> keyLoop src i s = Inr ([], 0)"
proof (induction s arbitrary: i)
  case Nil
  then show ?case by simp
next
  case (Cons c s)
  then have k: "keyByte c" by simp
  have "keyLoop src i (c # s) = keyLoop src (i + 1) s"
    using k keyByte_not_delimiter [OF k] by (auto simp: keyByte_def Let_def)
  with Cons show ?case by simp
qed

lemma keyLoop_newline:
  "list_all keyByte line \<Longrightarrow>
   keyLoop src i (line @ CHR 0x0A # rest) = Inl (UnexpectedChar (CHR 0x0A) src)"
proof (induction line arbitrary: i)
  case Nil
  then show ?case
    by (simp add: Let_def isSpace_def unicode_IsLetter_def unicode_IsNumber_def rune_of_def)
next
  case (Cons c line)
  then have k: "keyByte c" by simp
  have "keyLoop src i ((c # line) @ CHR 0x0A # rest) = keyLoop src (i + 1) (line @ CHR 0x0A # rest)"
    using k keyByte_not_delimiter [OF k] by (auto simp: keyByte_def Let_def)
  with Cons show ?case by simp
qed

lemma trimExport_set: "set (trimExport s) \<subseteq> set s"
proof -
  have a: "set (TrimLeftFunc s isSpace) \<subseteq> set s" by (rule TrimLeftFunc_set)
  have "set (TrimLeftFunc (TrimPrefix (TrimLeftFunc s isSpace) exportPrefix) isSpace)
      \<subseteq> set (TrimLeftFunc s isSpace)"
    using TrimLeftFunc_set [of "TrimPrefix (TrimLeftFunc s isSpace) exportPrefix" isSpace]
    by (auto simp: TrimPrefix_def dest: in_set_dropD split: if_splits)
  with a show ?thesis by (auto simp: trimExport_def Let_def)
qed

lemma locateKeyName_no_delimiter:
  assumes "list_all keyByte c" "trimExport c \<noteq> []"
  shows "\<exists>left. locateKeyName c = Inr ([], left)"
proof -
  have "list_all keyByte (trimExport c)"
    using assms(1) trimExport_set [of c] by (auto simp: list_all_iff)
  then have "keyLoop (trimExport c) 0 (trimExport c) = Inr ([], 0)" by (rule keyLoop_no_delimiter)
  with assms(2) show ?thesis by (simp add: locateKeyName_def Let_def TrimRightFunc_Nil)
qed

lemma locateKeyName_newline:
  assumes "trimExport c = line @ CHR 0x0A # rest" "list_all keyByte line"
  shows "locateKeyName c = Inl (UnexpectedChar (CHR 0x0A) (trimExport c))"
  using keyLoop_newline [OF assms(2), of "trimExport c" 0 rest] assms(1)
  by (simp add: locateKeyName_def Let_def)

(*HELPERS*)

section \<open>The claims\<close>

subsection \<open>C1: a dollar sign followed by a parenthesis\<close>

text \<open>
  C1 says that \<^verbatim>\<open>$(\<close> and what is matched after it pass through unchanged, so that
  \<^verbatim>\<open>$(FOO)\<close> stays the text \<^verbatim>\<open>$(FOO)\<close>. The replacement function compares
  \<^verbatim>\<open>submatch[2]\<close>, the group of the dollar sign, with \<^verbatim>\<open>"("\<close>; the parenthesis is group 3,
  so the test never holds and the name after \<^verbatim>\<open>$(\<close> is looked up. The theorem evaluates
  the code there: with FOO bound to \<^verbatim>\<open>bar\<close>, the value \<^verbatim>\<open>$(FOO)\<close> becomes \<^verbatim>\<open>bar)\<close>.
\<close>

theorem dollar_paren_is_expanded:
  "expandVariables ''$(FOO)'' [''FOO'' \<mapsto> ''bar''] = ''bar)'' \<and>
   parseBytes ''FOO=bar\<newline>X=$(FOO)'' Map.empty
     = (None, [''FOO'' \<mapsto> ''bar'', ''X'' \<mapsto> ''bar)''])"
  by (simp add: ev split del: if_split cong: prod.case_cong_weak)

subsection \<open>C2: the characters of a stored key\<close>

text \<open>
  C2 says that every stored key matches \<^verbatim>\<open>[A-Za-z0-9_.]+\<close>. The scan of the key skips
  blanks wherever they stand and accepts every byte that \<^verbatim>\<open>unicode.IsLetter\<close> or
  \<^verbatim>\<open>unicode.IsNumber\<close> accepts as a Latin-1 code point. The theorem evaluates the code on
  \<^verbatim>\<open>A B=1\<close>, whose stored key is \<^verbatim>\<open>A B\<close>, and on a key of the two bytes C3 A0.
\<close>

theorem key_outside_charset_is_stored:
  "parseBytes ''A B=1'' Map.empty = (None, [''A B'' \<mapsto> ''1'']) \<and>
   parseBytes ([CHR 0xC3, CHR 0xA0] @ ''=1'') Map.empty
     = (None, [[CHR 0xC3, CHR 0xA0] \<mapsto> ''1''])"
  by (simp add: ev split del: if_split cong: prod.case_cong_weak)

subsection \<open>C6: the order of the two escape passes\<close>

text \<open>
  C6: \<^verbatim>\<open>expandEscapes\<close> runs the pass for \<^verbatim>\<open>\n\<close> and \<^verbatim>\<open>\r\<close> first and the pass that
  strips backslashes second. \<^verbatim>\<open>B="a\nb"\<close> gives a value with a newline between a and b;
  \<^verbatim>\<open>C="a\\nb"\<close> gives a, a backslash, n, b. The first pass leaves the double backslash
  alone and the second makes one backslash of it; in the other order the n would become
  a newline.
\<close>

theorem escape_order:
  \<open>parseBytes (''B="a'' @ [CHR 0x5C] @ ''nb"'') Map.empty = (None, [''B'' \<mapsto> ''a\<newline>b'']) \<and>
   parseBytes (''C="a'' @ [CHR 0x5C, CHR 0x5C] @ ''nb"'') Map.empty
     = (None, [''C'' \<mapsto> ''a'' @ [CHR 0x5C] @ ''nb'']) \<and>
   expandEscapes (''a'' @ [CHR 0x5C, CHR 0x5C] @ ''nb'')
     = ReplaceAll_unescapeChars (ReplaceAll_escape (''a'' @ [CHR 0x5C, CHR 0x5C] @ ''nb'')) \<and>
   ReplaceAll_escape (''a'' @ [CHR 0x5C, CHR 0x5C] @ ''nb'') = ''a'' @ [CHR 0x5C, CHR 0x5C] @ ''nb'' \<and>
   ReplaceAll_escape (ReplaceAll_unescapeChars (''a'' @ [CHR 0x5C, CHR 0x5C] @ ''nb'')) = ''a\<newline>b''\<close>
  by (simp add: ev split del: if_split cong: prod.case_cong_weak)

subsection \<open>C9: the annotation Password with a length\<close>

lemma upperFirstLetter_Password:
  \<open>upperFirstLetter lib ''Password!'' = ''Password!''\<close>
  by (simp add: upperFirstLetter_def ToUpper_def ToLower_def EncodeRune_def rune_of_def RuneSelf_def
      Let_def char_of_eval)

lemma SplitN2_Password:
  \<open>SplitN2 ''Password!:{"length":8}'' (CHR '':'') = [''Password!'', ''{"length":8}'']\<close>
  by (simp add: SplitN2_def)

text \<open>
  C9: for a key whose comment is \<^verbatim>\<open>Password!:{"length":8}\<close>, whose parameter block decodes
  to a map with the number 8 under \<^verbatim>\<open>length\<close>, the spec is named Password and is
  required, and it is valid exactly when the value is not empty after trimming and has
  8 bytes.
\<close>

theorem Password_length_8:
  assumes \<open>json_Unmarshal lib ''{"length":8}'' = Some params\<close>
    and \<open>params ''length'' = Some (JFloat64 8)\<close>
    and \<open>values key = Some val\<close>
    and \<open>comments key = Some ''Password!:{"length":8}''\<close>
  shows \<open>GenerateSpecsFromComments lib values comments key =
    Some \<lparr>Name = ''Password'', Required = True,
           Valid = (TrimSpace val \<noteq> [] \<and> length val = 8)\<rparr>\<close>
proof -
  have c: \<open>lookup comments key = ''Password!:{"length":8}''\<close>
    using assms(4) by (simp add: lookup_def)
  have \<open>generateSpec lib val ''Password!:{"length":8}'' =
    \<lparr>Name = ''Password'', Required = True, Valid = (TrimSpace val \<noteq> [] \<and> length val = 8)\<rparr>\<close>
    unfolding generateSpec_def SplitN2_Password Let_def
    using assms(1,2)
    by (simp add: upperFirstLetter_Password HasSuffix_def TrimSuffix_def specsHandlers_def
        SpecNamePassword_def SpecNameOpaque_def validateInput_def)
  with c assms(3) show ?thesis by (simp add: GenerateSpecsFromComments_def)
qed

theorem Password_length_8_witness:
  \<open>GenerateSpecsFromComments example_library [''PW'' \<mapsto> ''hunter22'']
      [''PW'' \<mapsto> ''Password!:{"length":8}''] ''PW''
     = Some \<lparr>Name = ''Password'', Required = True, Valid = True\<rparr> \<and>
   GenerateSpecsFromComments example_library [''PW'' \<mapsto> ''12345'']
      [''PW'' \<mapsto> ''Password!:{"length":8}''] ''PW''
     = Some \<lparr>Name = ''Password'', Required = True, Valid = False\<rparr>\<close>
proof -
  have u: \<open>json_Unmarshal example_library ''{"length":8}'' = Some [''length'' \<mapsto> JFloat64 8]\<close>
    by (simp add: example_library_def)
  have t: \<open>TrimSpace ''hunter22'' \<noteq> []\<close>
    by (simp add: ev split del: if_split cong: prod.case_cong_weak)
  show ?thesis
    using Password_length_8 [OF u, of \<open>[''PW'' \<mapsto> ''hunter22'']\<close> \<open>''PW''\<close> \<open>''hunter22''\<close>
        \<open>[''PW'' \<mapsto> ''Password!:{"length":8}'']\<close>]
      Password_length_8 [OF u, of \<open>[''PW'' \<mapsto> ''12345'']\<close> \<open>''PW''\<close> \<open>''12345''\<close>
        \<open>[''PW'' \<mapsto> ''Password!:{"length":8}'']\<close>] t
    by simp
qed

end
